theory Spec2Isabelle
  imports Main
begin

section \<open>Values, errors and outcomes\<close>

text \<open>Python values that travel in messages, arguments and results.\<close>

datatype pyval =
    PNone
  | PBool bool
  | PInt int
  | PStr string
  | PList "pyval list"
  | PDict "(string \<times> pyval) list"

text \<open>The exceptions the modelled code can raise; the payload is what \<open>str(e)\<close> gives.\<close>

datatype error =
    AssertionError
  | KeyError string
  | AttributeError string
  | ValueError string
  | TypeError string
  | MethodError string

type_synonym jid = nat
type_synonym lid = nat

text \<open>A positional argument of a method call: the session object, a job object
  (by identity) or a plain value.\<close>

datatype arg = App | JobRef jid | Val pyval

type_synonym mbody = "arg list \<Rightarrow> error + pyval"

text \<open>The \<open>lock\<close> option of a job: a literal name or a callable on the job's arguments.\<close>

datatype optval = Lit string | Callable "arg list \<Rightarrow> string option"

section \<open>job.py: State and Job\<close>

datatype State = WAITING | RUNNING | SUCCESS | FAILED

definition State_members :: "string \<Rightarrow> State option" where
  "State_members =
     [''WAITING'' \<mapsto> WAITING, ''RUNNING'' \<mapsto> RUNNING,
      ''SUCCESS'' \<mapsto> SUCCESS, ''FAILED'' \<mapsto> FAILED]"

text \<open>The fields of a job object; \<open>job_method\<close> and \<open>job_id\<close> are the fields \<open>method\<close> and
  \<open>id\<close> of the source.\<close>

record Job =
  job_method :: mbody
  args :: "arg list"
  options :: "string \<Rightarrow> optval option"
  job_id :: "nat option"
  lock :: "lid option"
  result :: "pyval option"
  state :: State
  progress_percent :: "int option"
  progress_description :: "string option"
  time_started :: nat
  time_finished :: "nat option"

text \<open>\<open>Job.__init__(self, method, args, options)\<close>; \<open>now\<close> is what \<open>datetime.now()\<close> returns.\<close>

definition Job_init :: "mbody \<Rightarrow> arg list \<Rightarrow> (string \<Rightarrow> optval option) \<Rightarrow> nat \<Rightarrow> Job" where
  "Job_init m a opts now =
     \<lparr> job_method = m, args = a, options = opts,
       job_id = None, lock = None, result = None, state = WAITING,
       progress_percent = None, progress_description = None,
       time_started = now, time_finished = None \<rparr>"

definition set_id :: "Job \<Rightarrow> nat \<Rightarrow> Job" where
  "set_id self i = self\<lparr>job_id := Some i\<rparr>"

definition get_lock_name :: "Job \<Rightarrow> string option" where
  "get_lock_name self =
     (case options self ''lock'' of
        None \<Rightarrow> None
      | Some (Lit n) \<Rightarrow> Some n
      | Some (Callable f) \<Rightarrow> f (args self))"

definition set_result :: "Job \<Rightarrow> pyval \<Rightarrow> Job" where
  "set_result self r = self\<lparr>result := Some r\<rparr>"

text \<open>\<open>Job.set_state(self, state)\<close>: \<open>state\<close> is the name of the requested state, the
  three asserts are checked in the order of the source, then the name is looked up in
  the enumeration and \<open>time_finished\<close> is written.\<close>

definition set_state :: "Job \<Rightarrow> string \<Rightarrow> nat \<Rightarrow> error + Job" where
  "set_state self st now =
     (if state self = WAITING \<and> st \<in> set [''WAITING'', ''SUCCESS''] then Inl AssertionError
      else if state self = RUNNING \<and> st \<in> set [''WAITING'', ''RUNNING''] then Inl AssertionError
      else if state self \<in> set [SUCCESS, FAILED] then Inl AssertionError
      else (case State_members st of
              None \<Rightarrow> Inl (KeyError st)
            | Some s \<Rightarrow> Inr (self\<lparr>state := s, time_finished := Some now\<rparr>)))"

definition set_progress :: "Job \<Rightarrow> int option \<Rightarrow> string option \<Rightarrow> Job" where
  "set_progress self percent description =
     (let self1 = (case percent of None \<Rightarrow> self | Some p \<Rightarrow> self\<lparr>progress_percent := Some p\<rparr>)
      in (case description of
            None \<Rightarrow> self1
          | Some d \<Rightarrow> if d = [] then self1 else self1\<lparr>progress_description := Some d\<rparr>))"

text \<open>A caller that issues a sequence of \<open>set_state\<close> requests on one job and survives the
  failing ones (a failing call raises before any field is written): the list of state
  changes that were performed, in order.\<close>

fun state_changes :: "Job \<Rightarrow> (string \<times> nat) list \<Rightarrow> (State \<times> State) list" where
  "state_changes self [] = []"
| "state_changes self ((st, now) # calls) =
     (case set_state self st now of
        Inl e \<Rightarrow> state_changes self calls
      | Inr self' \<Rightarrow> (state self, state self') # state_changes self' calls)"

fun state_rank :: "State \<Rightarrow> nat" where
  "state_rank WAITING = 0"
| "state_rank RUNNING = 1"
| "state_rank SUCCESS = 2"
| "state_rank FAILED = 2"

section \<open>job.py: JobsDeque\<close>

text \<open>The ordered dictionary is an association list in insertion order; jobs are objects,
  so the store keeps their identities and the objects live in a heap.\<close>

record JobsDeque =
  maxlen :: nat
  count :: nat
  dict :: "(nat \<times> jid) list"

text \<open>\<open>JobsDeque.__init__(self, maxlen=1000)\<close> ignores its parameter.\<close>

definition JobsDeque_init :: "nat \<Rightarrow> JobsDeque" where
  "JobsDeque_init maxlen_param = \<lparr> maxlen = 1000, count = 0, dict = [] \<rparr>"

text \<open>\<open>d[k] = v\<close> on an ordered dictionary: an existing key keeps its place.\<close>

fun od_set :: "(nat \<times> jid) list \<Rightarrow> nat \<Rightarrow> jid \<Rightarrow> (nat \<times> jid) list" where
  "od_set [] k v = [(k, v)]"
| "od_set ((k', v') # d) k v = (if k' = k then (k, v) # d else (k', v') # od_set d k v)"

text \<open>\<open>JobsDeque.add(self, job)\<close>: the job object \<open>j\<close> of the heap gets its id. The
  \<open>popitem\<close> runs only on a dictionary of more than \<open>maxlen\<close> entries, which is not empty.\<close>

definition JobsDeque_add :: "jid \<Rightarrow> JobsDeque \<times> (jid \<Rightarrow> Job) \<Rightarrow> JobsDeque \<times> (jid \<Rightarrow> Job)" where
  "JobsDeque_add j dh =
     (case dh of (d, h) \<Rightarrow>
        let c = count d + 1;
            h1 = h(j := set_id (h j) c);
            dict1 = (if length (dict d) > maxlen d then tl (dict d) else dict d)
        in (d\<lparr>count := c, dict := od_set dict1 c j\<rparr>, h1))"

definition JobsDeque_all :: "JobsDeque \<Rightarrow> (nat \<times> jid) list" where
  "JobsDeque_all d = dict d"

text \<open>Adding the job objects \<open>js\<close> one after the other.\<close>

fun add_all :: "jid list \<Rightarrow> JobsDeque \<times> (jid \<Rightarrow> Job) \<Rightarrow> JobsDeque \<times> (jid \<Rightarrow> Job)" where
  "add_all [] dh = dh"
| "add_all (j # js) dh = add_all js (JobsDeque_add j dh)"

section \<open>job.py: JobSharedLock and JobsQueue\<close>

text \<open>What a call does: it returns a value, raises, or suspends the calling task (a
  \<open>wait\<close> on a cleared event, an \<open>acquire\<close> on a held semaphore). The state reached is
  returned beside the outcome in all three cases, since the effects that precede a raise
  stay.\<close>

datatype 'a outcome = Return 'a | Raise error | Block

text \<open>The gevent semaphore is its counter: created with 1, \<open>locked()\<close> is \<open>counter \<le> 0\<close>,
  \<open>acquire()\<close> takes one unit or suspends the caller, \<open>release()\<close> adds one.\<close>

record JobSharedLock =
  name :: string
  jobs :: "jid list"
  semaphore :: nat

definition JobSharedLock_init :: "string \<Rightarrow> JobSharedLock" where
  "JobSharedLock_init n = \<lparr> name = n, jobs = [], semaphore = 1 \<rparr>"

definition add_job :: "JobSharedLock \<Rightarrow> jid \<Rightarrow> JobSharedLock" where
  "add_job self j = self\<lparr>jobs := jobs self @ [j]\<rparr>"

definition get_jobs :: "JobSharedLock \<Rightarrow> jid list" where
  "get_jobs self = jobs self"

text \<open>\<open>list.remove\<close> deletes the first occurrence and raises \<open>ValueError\<close> when there is none.\<close>

definition remove_job :: "JobSharedLock \<Rightarrow> jid \<Rightarrow> error + JobSharedLock" where
  "remove_job self j =
     (if j \<in> set (jobs self) then Inr (self\<lparr>jobs := remove1 j (jobs self)\<rparr>)
      else Inl (ValueError ''list.remove(x): x not in list''))"

definition locked :: "JobSharedLock \<Rightarrow> bool" where
  "locked self = (semaphore self \<le> 0)"

definition acquire :: "JobSharedLock \<Rightarrow> JobSharedLock option" where
  "acquire self =
     (if 0 < semaphore self then Some (self\<lparr>semaphore := semaphore self - 1\<rparr>) else None)"

definition release :: "JobSharedLock \<Rightarrow> JobSharedLock" where
  "release self = self\<lparr>semaphore := semaphore self + 1\<rparr>"

text \<open>The queue with the objects it reaches: \<open>locks\<close> is the heap of lock objects
  (\<open>lock_count\<close> of them allocated so far), \<open>heap\<close> the heap of job objects. The registry
  \<open>job_locks\<close> and the \<open>lock\<close> field of a job hold addresses of lock objects, so a job can
  keep a lock object that the registry has dropped.\<close>

record JobsQueue =
  deque :: JobsDeque
  queue :: "jid list"
  queue_event :: bool
  job_locks :: "string \<Rightarrow> lid option"
  locks :: "lid \<Rightarrow> JobSharedLock"
  lock_count :: nat
  heap :: "jid \<Rightarrow> Job"

definition JobsQueue_init :: "(jid \<Rightarrow> Job) \<Rightarrow> JobsQueue" where
  "JobsQueue_init h =
     \<lparr> deque = JobsDeque_init 1000, queue = [], queue_event = False,
       job_locks = Map.empty, locks = (\<lambda>l. JobSharedLock_init []), lock_count = 0,
       heap = h \<rparr>"

definition JobsQueue_all :: "JobsQueue \<Rightarrow> (nat \<times> jid) list" where
  "JobsQueue_all q = JobsDeque_all (deque q)"

definition JobsQueue_add :: "jid \<Rightarrow> JobsQueue \<Rightarrow> JobsQueue" where
  "JobsQueue_add j q =
     (case JobsDeque_add j (deque q, heap q) of (d, h) \<Rightarrow>
        q\<lparr>deque := d, heap := h, queue := queue q @ [j], queue_event := True\<rparr>)"

definition get_lock :: "jid \<Rightarrow> JobsQueue \<Rightarrow> lid option \<times> JobsQueue" where
  "get_lock j q =
     (case get_lock_name (heap q j) of
        None \<Rightarrow> (None, q)
      | Some n \<Rightarrow>
          (case (case job_locks q n of
                   None \<Rightarrow>
                     (lock_count q,
                      q\<lparr>locks := (locks q)(lock_count q := JobSharedLock_init n),
                        lock_count := lock_count q + 1,
                        job_locks := (job_locks q)(n \<mapsto> lock_count q)\<rparr>)
                 | Some l \<Rightarrow> (l, q))
           of (l, q1) \<Rightarrow>
             (Some l, q1\<lparr>locks := (locks q1)(l := add_job (locks q1 l) j)\<rparr>)))"

text \<open>\<open>Job.set_lock(self, lock)\<close> stores the lock and then calls \<open>self.lock.acquire()\<close>:
  on \<open>None\<close> that attribute access raises.\<close>

definition set_lock :: "jid \<Rightarrow> lid option \<Rightarrow> JobsQueue \<Rightarrow> unit outcome \<times> JobsQueue" where
  "set_lock j lk q =
     (let q1 = q\<lparr>heap := (heap q)(j := (heap q j)\<lparr>lock := lk\<rparr>)\<rparr>
      in (case lk of
            None \<Rightarrow>
              (Raise (AttributeError ''NoneType object has no attribute acquire''), q1)
          | Some l \<Rightarrow>
              (case acquire (locks q1 l) of
                 None \<Rightarrow> (Block, q1)
               | Some lo \<Rightarrow> (Return (), q1\<lparr>locks := (locks q1)(l := lo)\<rparr>))))"

text \<open>\<open>JobsQueue.release_lock(self, job)\<close>; \<open>dict.pop\<close> of a missing name raises.\<close>

definition release_lock :: "jid \<Rightarrow> JobsQueue \<Rightarrow> unit outcome \<times> JobsQueue" where
  "release_lock j q =
     (case lock (heap q j) of
        None \<Rightarrow> (Return (), q)
      | Some l \<Rightarrow>
          (case remove_job (locks q l) j of
             Inl e \<Rightarrow> (Raise e, q)
           | Inr lo \<Rightarrow>
               (let q1 = q\<lparr>locks := (locks q)(l := release lo)\<rparr>
                in if length (get_jobs (locks q1 l)) = 0
                   then (case job_locks q1 (name (locks q1 l)) of
                           None \<Rightarrow> (Raise (KeyError (name (locks q1 l))), q1)
                         | Some l' \<Rightarrow>
                             (Return (),
                              q1\<lparr>job_locks := (job_locks q1)(name (locks q1 l) := None),
                                 queue_event := True\<rparr>))
                   else (Return (), q1\<lparr>queue_event := True\<rparr>))))"

text \<open>The \<open>for job in self.queue\<close> loop of \<open>next\<close>: \<open>get_lock\<close> registers every job it
  looks at, the first job with no lock or a free lock is given to \<open>set_lock\<close>.\<close>

fun scan :: "jid list \<Rightarrow> JobsQueue \<Rightarrow> jid option outcome \<times> JobsQueue" where
  "scan [] q = (Return None, q)"
| "scan (j # js) q =
     (case get_lock j q of (lk, q1) \<Rightarrow>
        if (case lk of None \<Rightarrow> True | Some l \<Rightarrow> \<not> locked (locks q1 l))
        then (case set_lock j lk q1 of
                (Return u, q2) \<Rightarrow> (Return (Some j), q2)
              | (Raise e, q2) \<Rightarrow> (Raise e, q2)
              | (Block, q2) \<Rightarrow> (Block, q2))
        else scan js q1)"

text \<open>\<open>JobsQueue.next(self)\<close>: \<open>wait\<close> suspends the caller while the event is cleared; an
  iteration that finds no job clears the event and loops, so the next \<open>wait\<close> suspends.\<close>

function JobsQueue_next :: "JobsQueue \<Rightarrow> jid outcome \<times> JobsQueue" where
  "JobsQueue_next q =
     (if \<not> queue_event q then (Block, q)
      else (case scan (queue q) q of
              (Return (Some j), q1) \<Rightarrow>
                (let q2 = q1\<lparr>queue := remove1 j (queue q1)\<rparr>
                 in (Return j, if length (queue q2) = 0 then q2\<lparr>queue_event := False\<rparr> else q2))
            | (Return None, q1) \<Rightarrow> JobsQueue_next (q1\<lparr>queue_event := False\<rparr>)
            | (Raise e, q1) \<Rightarrow> (Raise e, q1)
            | (Block, q1) \<Rightarrow> (Block, q1)))"
  by pat_completeness auto
termination
  by (relation "measure (\<lambda>q. if queue_event q then 1 else 0)") auto

declare JobsQueue_next.simps [simp del]

text \<open>\<open>Job.run(self, queue)\<close> in its two halves around the call of the method body, which
  is where another task can run. \<open>run_enter\<close> is the \<open>set_state('RUNNING')\<close> that opens the
  \<open>try\<close> block. \<open>run_leave\<close> takes what the \<open>try\<close> block produced (the value the method
  returned, or the exception raised by the method or by \<open>run_enter\<close>) and does the rest:
  \<open>set_result\<close>, the \<open>except\<close> or \<open>else\<close> clause, and \<open>release_lock\<close> in the \<open>finally\<close>
  clause, whose own exception replaces a pending one.\<close>

definition run_enter :: "jid \<Rightarrow> nat \<Rightarrow> JobsQueue \<Rightarrow> (error + unit) \<times> JobsQueue" where
  "run_enter j now q =
     (case set_state (heap q j) ''RUNNING'' now of
        Inl e \<Rightarrow> (Inl e, q)
      | Inr job \<Rightarrow> (Inr (), q\<lparr>heap := (heap q)(j := job)\<rparr>))"

definition run_leave :: "jid \<Rightarrow> error + pyval \<Rightarrow> nat \<Rightarrow> JobsQueue \<Rightarrow> unit outcome \<times> JobsQueue" where
  "run_leave j r now q =
     (case (case r of
              Inl e \<Rightarrow>
                (case set_state (heap q j) ''FAILED'' now of
                   Inl e' \<Rightarrow> (Inl e', q)
                 | Inr job \<Rightarrow> (Inl e, q\<lparr>heap := (heap q)(j := job)\<rparr>))
            | Inr v \<Rightarrow>
                (let q1 = q\<lparr>heap := (heap q)(j := set_result (heap q j) v)\<rparr>
                 in (case set_state (heap q1 j) ''SUCCESS'' now of
                       Inl e' \<Rightarrow> (Inl e', q1)
                     | Inr job \<Rightarrow> (Inr (), q1\<lparr>heap := (heap q1)(j := job)\<rparr>))))
      of (pending, q2) \<Rightarrow>
        (case release_lock j q2 of
           (Return u, q3) \<Rightarrow> (case pending of Inl e \<Rightarrow> (Raise e, q3) | Inr u' \<Rightarrow> (Return (), q3))
         | (Raise e, q3) \<Rightarrow> (Raise e, q3)
         | (Block, q3) \<Rightarrow> (Block, q3)))"

definition Job_run :: "jid \<Rightarrow> nat \<Rightarrow> nat \<Rightarrow> JobsQueue \<Rightarrow> unit outcome \<times> JobsQueue" where
  "Job_run j now1 now2 q =
     (case run_enter j now1 q of
        (Inl e, q1) \<Rightarrow> run_leave j (Inl e) now2 q1
      | (Inr u, q1) \<Rightarrow>
          run_leave j (job_method (heap q1 j) (JobRef j # args (heap q1 j))) now2 q1)"

section \<open>The scheduler loop and the job tasks as a transition system\<close>

text \<open>\<open>JobsQueue.run\<close> loops over \<open>job = self.next(); gevent.spawn(job.run, self)\<close>. Tasks
  are cooperative: a task runs until it suspends, so the steps are \<open>add\<close>, one call of
  \<open>next\<close> (which spawns the task of the job it returns, or suspends on the event, or
  raises and ends the loop), the start of a spawned task up to the method body, a progress
  report from the body, and the end of a task from the return of the body on. The result
  of the body and the clock readings are arbitrary.\<close>

record system =
  jq :: JobsQueue
  spawned :: "jid list"
  in_method :: "jid list"
  sched_alive :: bool

definition fresh_job :: "Job \<Rightarrow> bool" where
  "fresh_job job \<longleftrightarrow>
     job_id job = None \<and> lock job = None \<and> result job = None \<and> state job = WAITING
     \<and> time_finished job = None"

definition init_system :: "(jid \<Rightarrow> Job) \<Rightarrow> system" where
  "init_system h =
     \<lparr> jq = JobsQueue_init h, spawned = [], in_method = [], sched_alive = True \<rparr>"

inductive step :: "system \<Rightarrow> system \<Rightarrow> bool" where
  submit:
    "job_id (heap (jq s) j) = None \<Longrightarrow>
     step s (s\<lparr>jq := JobsQueue_add j (jq s)\<rparr>)"
| sched_spawn:
    "sched_alive s \<Longrightarrow> JobsQueue_next (jq s) = (Return j, q') \<Longrightarrow>
     step s (s\<lparr>jq := q', spawned := spawned s @ [j]\<rparr>)"
| sched_wait:
    "sched_alive s \<Longrightarrow> JobsQueue_next (jq s) = (Block, q') \<Longrightarrow>
     step s (s\<lparr>jq := q'\<rparr>)"
| sched_crash:
    "sched_alive s \<Longrightarrow> JobsQueue_next (jq s) = (Raise e, q') \<Longrightarrow>
     step s (s\<lparr>jq := q', sched_alive := False\<rparr>)"
| task_start:
    "j \<in> set (spawned s) \<Longrightarrow> run_enter j now (jq s) = (Inr u, q') \<Longrightarrow>
     step s (s\<lparr>jq := q', spawned := remove1 j (spawned s), in_method := in_method s @ [j]\<rparr>)"
| task_start_failed:
    "j \<in> set (spawned s) \<Longrightarrow> run_enter j now (jq s) = (Inl e, q1) \<Longrightarrow>
     run_leave j (Inl e) now' q1 = (out, q') \<Longrightarrow>
     step s (s\<lparr>jq := q', spawned := remove1 j (spawned s)\<rparr>)"
| task_progress:
    "j \<in> set (in_method s) \<Longrightarrow>
     step s (s\<lparr>jq := (jq s)\<lparr>heap := (heap (jq s))(j := set_progress (heap (jq s) j) p d)\<rparr>\<rparr>)"
| task_finish:
    "j \<in> set (in_method s) \<Longrightarrow> run_leave j r now (jq s) = (out, q') \<Longrightarrow>
     step s (s\<lparr>jq := q', in_method := remove1 j (in_method s)\<rparr>)"

inductive reachable :: "system \<Rightarrow> bool" where
  reach_init: "(\<forall>j. fresh_job (h j)) \<Longrightarrow> reachable (init_system h)"
| reach_step: "reachable s \<Longrightarrow> step s s' \<Longrightarrow> reachable s'"

section \<open>main.py: Application and Middleware\<close>

text \<open>A decoded message is a dictionary.\<close>

type_synonym message = "string \<Rightarrow> pyval option"

text \<open>What the dispatcher reads of a method object: the three marker attributes and the
  body.\<close>

record methodobj =
  no_auth_required :: bool
  pass_app :: bool
  is_job :: bool
  body :: mbody

text \<open>\<open>calls\<close> records every invocation of a method body by the dispatcher, \<open>greenlets\<close>
  every \<open>gevent.spawn(self.run_job, job, methodobj, args)\<close>; \<open>job_count\<close> allocates job
  objects.\<close>

record Middleware =
  mw_jobs :: JobsDeque
  mw_heap :: "jid \<Rightarrow> Job"
  job_count :: nat
  services :: "string \<Rightarrow> (string \<Rightarrow> methodobj option) option"
  calls :: "(string \<times> string \<times> arg list) list"
  greenlets :: "(jid \<times> string \<times> string \<times> arg list) list"

text \<open>\<open>sent\<close> is what went through \<open>ws.send\<close>, before serialisation; \<open>logged\<close> counts
  the \<open>logger.error\<close> calls. A registered callback is known by whether it raises on a
  message; \<open>format_exception\<close> stands for the text of the traceback.\<close>

record Application =
  authenticated :: bool
  handshake :: bool
  sessionid :: string
  callbacks_on_message :: "(message \<Rightarrow> bool) list"
  format_exception :: "error \<Rightarrow> string"
  sent :: "pyval list"
  logged :: nat

definition quote :: "string \<Rightarrow> string" where
  "quote s = [CHR 0x27] @ s @ [CHR 0x27]"

text \<open>\<open>str(e)\<close>.\<close>

fun error_str :: "error \<Rightarrow> string" where
  "error_str AssertionError = []"
| "error_str (KeyError k) = quote k"
| "error_str (AttributeError m) = m"
| "error_str (ValueError m) = m"
| "error_str (TypeError m) = m"
| "error_str (MethodError m) = m"

definition send :: "Application \<Rightarrow> pyval \<Rightarrow> Application" where
  "send app data = app\<lparr>sent := sent app @ [data]\<rparr>"

definition error_reply :: "pyval \<Rightarrow> string \<Rightarrow> pyval \<Rightarrow> pyval" where
  "error_reply i err stacktrace =
     PDict [(''msg'', PStr ''result''), (''id'', i),
            (''error'', PDict [(''error'', PStr err), (''stacktrace'', stacktrace)])]"

definition send_error :: "Application \<Rightarrow> message \<Rightarrow> string \<Rightarrow> pyval \<Rightarrow> error + Application" where
  "send_error app message err stacktrace =
     (case message ''id'' of
        None \<Rightarrow> Inl (KeyError ''id'')
      | Some i \<Rightarrow> Inr (send app (error_reply i err stacktrace)))"

fun truthy :: "pyval \<Rightarrow> bool" where
  "truthy PNone = False"
| "truthy (PBool b) = b"
| "truthy (PInt n) = (n \<noteq> 0)"
| "truthy (PStr s) = (s \<noteq> [])"
| "truthy (PList vs) = (vs \<noteq> [])"
| "truthy (PDict kvs) = (kvs \<noteq> [])"

text \<open>\<open>message.get('params') or []\<close>.\<close>

definition get_params :: "message \<Rightarrow> pyval" where
  "get_params message =
     (case message ''params'' of
        None \<Rightarrow> PList []
      | Some v \<Rightarrow> if truthy v then v else PList [])"

text \<open>\<open>args.extend(params)\<close> iterates over \<open>params\<close>.\<close>

fun extend :: "arg list \<Rightarrow> pyval \<Rightarrow> error + arg list" where
  "extend as (PList vs) = Inr (as @ map Val vs)"
| "extend as (PStr s) = Inr (as @ map (\<lambda>c. Val (PStr [c])) s)"
| "extend as (PDict kvs) = Inr (as @ map (\<lambda>kv. Val (PStr (fst kv))) kvs)"
| "extend as v = Inl (TypeError ''object is not iterable'')"

text \<open>\<open>service, method = method.rsplit('.', 1)\<close>: the split is at the last dot, and a
  name without a dot gives one part, which does not unpack.\<close>

definition rsplit_dot :: "string \<Rightarrow> (string \<times> string) option" where
  "rsplit_dot s =
     (if CHR ''.'' \<in> set s
      then Some (rev (tl (dropWhile (\<lambda>c. c \<noteq> CHR ''.'') (rev s))),
                 rev (takeWhile (\<lambda>c. c \<noteq> CHR ''.'') (rev s)))
      else None)"

text \<open>The constructor call \<open>Job(...)\<close> with its positional arguments: \<open>__init__\<close> takes
  \<open>method\<close>, \<open>args\<close> and \<open>options\<close>, none of them with a default.\<close>

datatype ctor_arg = CMethod mbody | CArgs "arg list" | COptions "string \<Rightarrow> optval option"

fun Job_call :: "ctor_arg list \<Rightarrow> nat \<Rightarrow> error + Job" where
  "Job_call [CMethod m, CArgs a, COptions opts] now = Inr (Job_init m a opts now)"
| "Job_call [] now = Inl (TypeError ''__init__() takes exactly 4 arguments (1 given)'')"
| "Job_call cas now = Inl (TypeError ''__init__() takes exactly 4 arguments'')"

text \<open>\<open>Middleware.call_method(self, app, message)\<close>, first part: the method name, the
  split, the lookup of the service (\<open>self.__services[name]\<close>) and of the method
  (\<open>getattr\<close>). The parameters, read in between, cannot raise.\<close>

definition resolve :: "message \<Rightarrow> Middleware \<Rightarrow> error + (string \<times> string \<times> methodobj)" where
  "resolve message mw =
     (case message ''method'' of
        None \<Rightarrow> Inl (KeyError ''method'')
      | Some (PStr mname) \<Rightarrow>
          (case rsplit_dot mname of
             None \<Rightarrow> Inl (ValueError ''need more than 1 value to unpack'')
           | Some (sname, meth) \<Rightarrow>
               (case services mw sname of
                  None \<Rightarrow> Inl (KeyError sname)
                | Some srv \<Rightarrow>
                    (case srv meth of
                       None \<Rightarrow> Inl (AttributeError meth)
                     | Some mo \<Rightarrow> Inr (sname, meth, mo))))
      | Some v \<Rightarrow> Inl (AttributeError ''rsplit''))"

text \<open>The job branch: \<open>job = Job()\<close>, \<open>self.__jobs.add(job)\<close>, \<open>args.append(job)\<close>,
  \<open>args.extend(params)\<close>, the spawn of \<open>run_job\<close> and the return of \<open>job.id\<close>.\<close>

definition call_job ::
  "string \<Rightarrow> string \<Rightarrow> arg list \<Rightarrow> pyval \<Rightarrow> nat \<Rightarrow> Middleware \<Rightarrow> (error + pyval) \<times> Middleware" where
  "call_job sname meth args0 params now mw =
     (case Job_call [] now of
        Inl e \<Rightarrow> (Inl e, mw)
      | Inr job \<Rightarrow>
          (case JobsDeque_add (job_count mw) (mw_jobs mw, (mw_heap mw)(job_count mw := job)) of
             (d, h) \<Rightarrow>
               (let mw1 = mw\<lparr>mw_jobs := d, mw_heap := h, job_count := job_count mw + 1\<rparr>
                in (case extend (args0 @ [JobRef (job_count mw)]) params of
                      Inl e \<Rightarrow> (Inl e, mw1)
                    | Inr args1 \<Rightarrow>
                        (Inr (case job_id (h (job_count mw)) of
                                None \<Rightarrow> PNone
                              | Some i \<Rightarrow> PInt (int i)),
                         mw1\<lparr>greenlets :=
                               greenlets mw1 @ [(job_count mw, sname, meth, args1)]\<rparr>)))))"

text \<open>The other branch: \<open>args.extend(params)\<close> and \<open>return methodobj(*args)\<close>.\<close>

definition call_inline ::
  "string \<Rightarrow> string \<Rightarrow> methodobj \<Rightarrow> arg list \<Rightarrow> pyval \<Rightarrow> Middleware \<Rightarrow> (error + pyval) \<times> Middleware" where
  "call_inline sname meth mo args0 params mw =
     (case extend args0 params of
        Inl e \<Rightarrow> (Inl e, mw)
      | Inr args1 \<Rightarrow> (body mo args1, mw\<lparr>calls := calls mw @ [(sname, meth, args1)]\<rparr>))"

definition Middleware_call_method ::
  "message \<Rightarrow> nat \<Rightarrow> Application \<times> Middleware \<Rightarrow> (error + pyval) \<times> Application \<times> Middleware" where
  "Middleware_call_method message now am =
     (case am of (app, mw) \<Rightarrow>
        (case resolve message mw of
           Inl e \<Rightarrow> (Inl e, app, mw)
         | Inr (sname, meth, mo) \<Rightarrow>
             if \<not> authenticated app \<and> \<not> no_auth_required mo
             then (case send_error app message ''Not authenticated'' PNone of
                     Inl e \<Rightarrow> (Inl e, app, mw)
                   | Inr app1 \<Rightarrow> (Inr PNone, app1, mw))
             else (case (if is_job mo
                         then call_job sname meth (if pass_app mo then [App] else [])
                                (get_params message) now mw
                         else call_inline sname meth mo (if pass_app mo then [App] else [])
                                (get_params message) mw)
                   of (r, mw1) \<Rightarrow> (r, app, mw1))))"

text \<open>\<open>Application.call_method(self, message)\<close>: \<open>message['id']\<close> is read before the
  dispatcher is called, and the handler's own \<open>send_error\<close> can raise.\<close>

definition Application_call_method ::
  "message \<Rightarrow> nat \<Rightarrow> Application \<times> Middleware \<Rightarrow> (error + unit) \<times> Application \<times> Middleware" where
  "Application_call_method message now am =
     (case (case message ''id'' of
              None \<Rightarrow> (Inl (KeyError ''id''), am)
            | Some i \<Rightarrow>
                (case Middleware_call_method message now am of
                   (Inl e, am1) \<Rightarrow> (Inl e, am1)
                 | (Inr v, app1, mw1) \<Rightarrow>
                     (Inr (),
                      send app1 (PDict [(''id'', i), (''msg'', PStr ''result''), (''result'', v)]),
                      mw1)))
      of
        (Inr u, am2) \<Rightarrow> (Inr (), am2)
      | (Inl e, app2, mw2) \<Rightarrow>
          (case send_error app2 message (error_str e) (PStr (format_exception app2 e)) of
             Inl e' \<Rightarrow> (Inl e', app2, mw2)
           | Inr app3 \<Rightarrow> (Inr (), app3, mw2)))"

text \<open>The loop over the registered callbacks: a callback that raises is logged.\<close>

fun run_callbacks :: "(message \<Rightarrow> bool) list \<Rightarrow> message \<Rightarrow> Application \<Rightarrow> Application" where
  "run_callbacks [] message app = app"
| "run_callbacks (cb # cbs) message app =
     run_callbacks cbs message (if cb message then app\<lparr>logged := logged app + 1\<rparr> else app)"

definition failed_reply :: pyval where
  "failed_reply = PDict [(''msg'', PStr ''failed''), (''version'', PStr ''1'')]"

definition connected_reply :: "string \<Rightarrow> pyval" where
  "connected_reply sid = PDict [(''msg'', PStr ''connected''), (''session'', PStr sid)]"

text \<open>\<open>Application.on_message(self, message)\<close>.\<close>

definition on_message ::
  "message \<Rightarrow> nat \<Rightarrow> Application \<times> Middleware \<Rightarrow> (error + unit) \<times> Application \<times> Middleware" where
  "on_message message now am =
     (case am of (app0, mw) \<Rightarrow>
      (let app = run_callbacks (callbacks_on_message app0) message app0
       in (case message ''msg'' of
             None \<Rightarrow> (Inl (KeyError ''msg''), app, mw)
           | Some m \<Rightarrow>
               if m = PStr ''connect''
               then (if message ''version'' \<noteq> Some (PStr ''1'')
                     then (Inr (), send app failed_reply, mw)
                     else (Inr (), (send app (connected_reply (sessionid app)))\<lparr>handshake := True\<rparr>, mw))
               else if \<not> handshake app
               then (Inr (), send app failed_reply, mw)
               else (case (if m = PStr ''method''
                           then Application_call_method message now (app, mw)
                           else (Inr (), app, mw))
                     of
                       (Inl e, am1) \<Rightarrow> (Inl e, am1)
                     | (Inr u, app1, mw1) \<Rightarrow>
                         if \<not> authenticated app1
                         then (case send_error app1 message ''Not authenticated'' PNone of
                                 Inl e \<Rightarrow> (Inl e, app1, mw1)
                               | Inr app2 \<Rightarrow> (Inr (), app2, mw1))
                         else (Inr (), app1, mw1)))))"

section \<open>Concrete objects for the examples\<close>

definition noop_body :: mbody where
  "noop_body as = Inr PNone"

definition no_options :: "string \<Rightarrow> optval option" where
  "no_options k = None"

definition lock_options :: "string \<Rightarrow> string \<Rightarrow> optval option" where
  "lock_options n k = (if k = ''lock'' then Some (Lit n) else None)"

definition new_job :: Job where
  "new_job = Job_init noop_body [] no_options 0"

text \<open>A heap of job objects none of which asks for a lock, and one where every job asks
  for the lock \<open>backup\<close>.\<close>

definition plain_heap :: "jid \<Rightarrow> Job" where
  "plain_heap j = new_job"

definition backup_heap :: "jid \<Rightarrow> Job" where
  "backup_heap j = Job_init noop_body [] (lock_options ''backup'') 0"

text \<open>One job without a lock is submitted to a new queue.\<close>

definition plain_q :: JobsQueue where
  "plain_q = JobsQueue_add 0 (JobsQueue_init plain_heap)"

text \<open>Two jobs that ask for the lock \<open>backup\<close>: job 0 is submitted and selected, job 1 is
  submitted and looked at while job 0 holds the lock, job 0 runs to its end, job 1 is
  selected and runs to its end.\<close>

definition backup_q1 :: JobsQueue where
  "backup_q1 = JobsQueue_add 0 (JobsQueue_init backup_heap)"

definition backup_q2 :: JobsQueue where
  "backup_q2 = snd (JobsQueue_next backup_q1)"

definition backup_q3 :: JobsQueue where
  "backup_q3 = JobsQueue_add 1 backup_q2"

definition backup_q4 :: JobsQueue where
  "backup_q4 = snd (JobsQueue_next backup_q3)"

definition backup_q5 :: JobsQueue where
  "backup_q5 = snd (Job_run 0 10 11 backup_q4)"

definition backup_q6 :: JobsQueue where
  "backup_q6 = snd (JobsQueue_next backup_q5)"

definition backup_q7 :: JobsQueue where
  "backup_q7 = snd (Job_run 1 12 13 backup_q6)"

text \<open>A registry with the job method \<open>backup.run\<close> and the plain method \<open>system.info\<close>,
  neither of them marked as callable without authentication; a session by its two flags;
  a method message with the id 1 and a connect message.\<close>

definition run_obj :: methodobj where
  "run_obj = \<lparr> no_auth_required = False, pass_app = False, is_job = True, body = noop_body \<rparr>"

definition info_obj :: methodobj where
  "info_obj = \<lparr> no_auth_required = False, pass_app = False, is_job = False, body = noop_body \<rparr>"

definition backup_service :: "string \<Rightarrow> methodobj option" where
  "backup_service m = (if m = ''run'' then Some run_obj else None)"

definition system_service :: "string \<Rightarrow> methodobj option" where
  "system_service m = (if m = ''info'' then Some info_obj else None)"

definition example_services :: "string \<Rightarrow> (string \<Rightarrow> methodobj option) option" where
  "example_services n =
     (if n = ''backup'' then Some backup_service
      else if n = ''system'' then Some system_service else None)"

definition example_mw :: Middleware where
  "example_mw =
     \<lparr> mw_jobs = JobsDeque_init 1000, mw_heap = plain_heap, job_count = 0,
       services = example_services, calls = [], greenlets = [] \<rparr>"

definition example_app :: "bool \<Rightarrow> bool \<Rightarrow> Application" where
  "example_app auth hs =
     \<lparr> authenticated = auth, handshake = hs, sessionid = ''session-1'',
       callbacks_on_message = [], format_exception = error_str, sent = [], logged = 0 \<rparr>"

definition method_msg :: "string \<Rightarrow> message" where
  "method_msg m k =
     (if k = ''msg'' then Some (PStr ''method'')
      else if k = ''id'' then Some (PInt 1)
      else if k = ''method'' then Some (PStr m) else None)"

definition connect_msg :: "string \<Rightarrow> message" where
  "connect_msg v k =
     (if k = ''msg'' then Some (PStr ''connect'')
      else if k = ''version'' then Some (PStr v) else None)"

section \<open>Invariants of the transition system\<close>

text \<open>\<open>lock_frame q q'\<close>: the job objects of \<open>q'\<close> are those of \<open>q\<close> up to their \<open>lock\<close>
  field.\<close>

definition lock_frame :: "JobsQueue \<Rightarrow> JobsQueue \<Rightarrow> bool" where
  "lock_frame q q' \<longleftrightarrow> (\<forall>i. \<exists>lk. heap q' i = (heap q i)\<lparr>lock := lk\<rparr>)"

text \<open>The jobs of the list \<open>A\<close> whose \<open>lock\<close> field is the lock object \<open>l\<close>.\<close>

definition holders :: "jid list \<Rightarrow> JobsQueue \<Rightarrow> lid \<Rightarrow> jid list" where
  "holders A q l = filter (\<lambda>j. lock (heap q j) = Some l) A"

text \<open>The invariant of the queue with respect to the jobs \<open>A\<close> that were selected and have
  not released yet: each of them has a lock name, its \<open>lock\<close> field is the lock object that
  the registry holds under that name; a registry entry points to an allocated lock object
  of that name; and for every lock object the units left in the semaphore and the jobs
  of \<open>A\<close> that have the object add up to one at most.\<close>

definition qinv :: "jid list \<Rightarrow> JobsQueue \<Rightarrow> bool" where
  "qinv A q \<longleftrightarrow>
     (\<forall>j \<in> set A. \<exists>n l. get_lock_name (heap q j) = Some n \<and> job_locks q n = Some l
                        \<and> lock (heap q j) = Some l)
   \<and> (\<forall>n l. job_locks q n = Some l \<longrightarrow> name (locks q l) = n \<and> l < lock_count q)
   \<and> (\<forall>l. semaphore (locks q l) + length (holders A q l) \<le> 1)"

text \<open>What the \<open>for\<close> loop of \<open>next\<close>, and \<open>next\<close> itself, establish.\<close>

definition scan_post ::
  "jid list \<Rightarrow> jid list \<Rightarrow> JobsQueue \<Rightarrow> jid option outcome \<Rightarrow> JobsQueue \<Rightarrow> bool" where
  "scan_post A js q out q' \<longleftrightarrow>
     lock_frame q q' \<and> queue q' = queue q \<and> queue_event q' = queue_event q
     \<and> deque q' = deque q
     \<and> (case out of
           Return (Some j) \<Rightarrow> j \<in> set js \<and> qinv (A @ [j]) q'
         | Return None \<Rightarrow> qinv A q'
         | Raise e \<Rightarrow> qinv A q'
         | Block \<Rightarrow> False)"

definition next_post :: "jid list \<Rightarrow> JobsQueue \<Rightarrow> jid outcome \<Rightarrow> JobsQueue \<Rightarrow> bool" where
  "next_post A q out q' \<longleftrightarrow>
     lock_frame q q' \<and> deque q' = deque q
     \<and> (case out of
           Return j \<Rightarrow> j \<in> set (queue q) \<and> qinv (A @ [j]) q' \<and> queue q' = remove1 j (queue q)
         | Raise e \<Rightarrow> qinv A q' \<and> queue q' = queue q
         | Block \<Rightarrow> qinv A q' \<and> queue q' = queue q)"

text \<open>The selected jobs of the system are the spawned tasks and the tasks inside the method
  body. The invariant of the system: the queue invariant for them, a job is Running
  exactly while its task is inside the method body, no selected job is still queued,
  no job is queued or selected twice, and only jobs with an id are queued or selected.\<close>

definition active :: "system \<Rightarrow> jid list" where
  "active s = spawned s @ in_method s"

definition sys_inv :: "system \<Rightarrow> bool" where
  "sys_inv s \<longleftrightarrow>
     qinv (active s) (jq s)
   \<and> (\<forall>j. state (heap (jq s) j) = RUNNING \<longleftrightarrow> j \<in> set (in_method s))
   \<and> set (queue (jq s)) \<inter> set (active s) = {}
   \<and> distinct (queue (jq s)) \<and> distinct (active s)
   \<and> (\<forall>j. job_id (heap (jq s) j) = None \<longrightarrow>
          j \<notin> set (queue (jq s)) \<and> j \<notin> set (active s))"

text \<open>Job 0 asks for the lock \<open>alpha\<close>, every other job for the lock \<open>beta\<close>; jobs 0 and 1
  are submitted, selected one after the other, and both tasks start.\<close>

definition two_heap :: "jid \<Rightarrow> Job" where
  "two_heap j = Job_init noop_body [] (lock_options (if j = 0 then ''alpha'' else ''beta'')) 0"

definition par0 :: system where
  "par0 = init_system two_heap"

definition par1 :: system where
  "par1 = par0\<lparr>jq := JobsQueue_add 0 (jq par0)\<rparr>"

definition par2 :: system where
  "par2 = par1\<lparr>jq := JobsQueue_add 1 (jq par1)\<rparr>"

definition par3 :: system where
  "par3 = par2\<lparr>jq := snd (JobsQueue_next (jq par2)), spawned := spawned par2 @ [0]\<rparr>"

definition par4 :: system where
  "par4 = par3\<lparr>jq := snd (JobsQueue_next (jq par3)), spawned := spawned par3 @ [1]\<rparr>"

definition par5 :: system where
  "par5 = par4\<lparr>jq := snd (run_enter 0 1 (jq par4)), spawned := remove1 0 (spawned par4),
               in_method := in_method par4 @ [0]\<rparr>"

definition par6 :: system where
  "par6 = par5\<lparr>jq := snd (run_enter 1 2 (jq par5)), spawned := remove1 1 (spawned par5),
               in_method := in_method par5 @ [1]\<rparr>"

text \<open>The bookkeeping of the registry: an entry points to an allocated lock object of
  that name whose job list is not empty, and a lock object whose job list is not empty
  is the one registered under its name.\<close>

definition rinv :: "JobsQueue \<Rightarrow> bool" where
  "rinv q \<longleftrightarrow>
     (\<forall>n l. job_locks q n = Some l \<longrightarrow>
        name (locks q l) = n \<and> l < lock_count q \<and> jobs (locks q l) \<noteq> [])
   \<and> (\<forall>l. jobs (locks q l) \<noteq> [] \<longrightarrow> job_locks q (name (locks q l)) = Some l)"

text \<open>A queued job is eligible when it has no lock name, or no lock object is registered
  under its name yet, or the registered one is free.\<close>

definition eligible :: "JobsQueue \<Rightarrow> jid \<Rightarrow> bool" where
  "eligible q j =
     (case get_lock_name (heap q j) of
        None \<Rightarrow> True
      | Some n \<Rightarrow> (case job_locks q n of None \<Rightarrow> True | Some l \<Rightarrow> \<not> locked (locks q l)))"

text \<open>Two jobs without a lock name are submitted; the scheduler then takes its step,
  which raises and ends the scheduler loop.\<close>

definition pl0 :: system where
  "pl0 = init_system plain_heap"

definition pl1 :: system where
  "pl1 = pl0\<lparr>jq := JobsQueue_add 0 (jq pl0)\<rparr>"

definition pl2 :: system where
  "pl2 = pl1\<lparr>jq := JobsQueue_add 1 (jq pl1)\<rparr>"

definition pl3 :: system where
  "pl3 = pl2\<lparr>jq := snd (JobsQueue_next (jq pl2)), sched_alive := False\<rparr>"

section \<open>Job states\<close>

lemma State_members_SomeD:
  "State_members st = Some s \<Longrightarrow>
     st = ''WAITING'' \<and> s = WAITING \<or> st = ''RUNNING'' \<and> s = RUNNING
     \<or> st = ''SUCCESS'' \<and> s = SUCCESS \<or> st = ''FAILED'' \<and> s = FAILED"
  by (simp add: State_members_def split: if_splits)

lemma set_state_InrD:
  assumes "set_state job st now = Inr job'"
  shows "job' = job\<lparr>state := state job', time_finished := Some now\<rparr>
         \<and> State_members st = Some (state job')
         \<and> (state job = WAITING \<and> (state job' = RUNNING \<or> state job' = FAILED)
            \<or> state job = RUNNING \<and> (state job' = SUCCESS \<or> state job' = FAILED))"
proof -
  from assms obtain s where s: "State_members st = Some s"
    and j: "job' = job\<lparr>state := s, time_finished := Some now\<rparr>"
    and w: "\<not> (state job = WAITING \<and> (st = ''WAITING'' \<or> st = ''SUCCESS''))"
    and r: "\<not> (state job = RUNNING \<and> (st = ''WAITING'' \<or> st = ''RUNNING''))"
    and t: "state job \<noteq> SUCCESS" "state job \<noteq> FAILED"
    by (simp add: set_state_def split: if_splits option.splits)
  from j have e: "state job' = s" by simp
  from State_members_SomeD [OF s] w r t
  have "state job = WAITING \<and> (s = RUNNING \<or> s = FAILED)
            \<or> state job = RUNNING \<and> (s = SUCCESS \<or> s = FAILED)"
    by (cases "state job") auto
  with s j e show ?thesis by simp
qed

lemma set_state_rank:
  "set_state job st now = Inr job' \<Longrightarrow> state_rank (state job) < state_rank (state job')"
  by (drule set_state_InrD) auto

lemma set_state_pair:
  "set_state job st now = Inr job' \<Longrightarrow>
     (state job, state job') \<in>
        {(WAITING, RUNNING), (WAITING, FAILED), (RUNNING, SUCCESS), (RUNNING, FAILED)}"
  by (drule set_state_InrD) auto

lemma state_changes_rank:
  "(a, b) \<in> set (state_changes job reqs) \<Longrightarrow>
     state_rank (state job) \<le> state_rank a \<and> state_rank a < state_rank b"
proof (induction reqs arbitrary: job)
  case Nil
  then show ?case by simp
next
  case (Cons c reqs)
  obtain st now where c: "c = (st, now)" by (cases c)
  show ?case
  proof (cases "set_state job st now")
    case (Inl e)
    with Cons c show ?thesis by simp
  next
    case (Inr job')
    from Inr have r: "state_rank (state job) < state_rank (state job')"
      by (rule set_state_rank)
    from Cons.prems c Inr
    have "(a, b) = (state job, state job') \<or> (a, b) \<in> set (state_changes job' reqs)"
      by simp
    then show ?thesis
    proof
      assume "(a, b) = (state job, state job')"
      with r show ?thesis by simp
    next
      assume "(a, b) \<in> set (state_changes job' reqs)"
      from Cons.IH [OF this] r show ?thesis by simp
    qed
  qed
qed

lemma state_changes_distinct: "distinct (state_changes job reqs)"
proof (induction reqs arbitrary: job)
  case Nil
  then show ?case by simp
next
  case (Cons c reqs)
  obtain st now where c: "c = (st, now)" by (cases c)
  show ?case
  proof (cases "set_state job st now")
    case (Inl e)
    with Cons c show ?thesis by simp
  next
    case (Inr job')
    have "(state job, state job') \<notin> set (state_changes job' reqs)"
    proof
      assume "(state job, state job') \<in> set (state_changes job' reqs)"
      from state_changes_rank [OF this] set_state_rank [OF Inr] show False by simp
    qed
    with Cons.IH [of job'] c Inr show ?thesis by simp
  qed
qed

lemma state_changes_allowed:
  "set (state_changes job reqs) \<subseteq>
     {(WAITING, RUNNING), (WAITING, FAILED), (RUNNING, SUCCESS), (RUNNING, FAILED)}"
proof (induction reqs arbitrary: job)
  case Nil
  then show ?case by simp
next
  case (Cons c reqs)
  obtain st now where c: "c = (st, now)" by (cases c)
  show ?case
  proof (cases "set_state job st now")
    case (Inl e)
    with Cons c show ?thesis by simp
  next
    case (Inr job')
    note p = set_state_pair [OF Inr]
    from Cons.IH [of job'] p c Inr show ?thesis by simp
  qed
qed

text \<open>Claim C1, as stated, says that every transition off the path
  Waiting, Running, then Success or Failed is refused. The guard of \<open>set_state\<close> for a
  waiting job refuses only the names \<open>WAITING\<close> and \<open>SUCCESS\<close>: a waiting job that is asked
  for \<open>FAILED\<close> becomes Failed without having been Running.\<close>

theorem set_state_waiting_to_failed:
  "set_state new_job ''FAILED'' 1 = Inr (new_job\<lparr>state := FAILED, time_finished := Some 1\<rparr>)
   \<and> state new_job = WAITING"
  by (simp add: set_state_def new_job_def Job_init_def State_members_def)

text \<open>Claim C1, amended: a successful \<open>set_state\<close> moves the job from Waiting to Running,
  from Waiting to Failed, from Running to Success or from Running to Failed, to the state
  whose name was requested; a request on a job that is in Success or Failed, and the
  requests Waiting to Waiting, Waiting to Success, Running to Waiting and Running to
  Running, fail with an assertion error; and over any sequence of requests on one job
  every state change performed is one of those four and none is performed twice.\<close>

theorem set_state_transitions:
  "(set_state job st now = Inr job' \<longrightarrow>
      (state job, state job') \<in>
        {(WAITING, RUNNING), (WAITING, FAILED), (RUNNING, SUCCESS), (RUNNING, FAILED)}
      \<and> State_members st = Some (state job'))
   \<and> (state job = SUCCESS \<or> state job = FAILED \<longrightarrow>
        set_state job st now = Inl AssertionError)
   \<and> (state job = WAITING \<and> (st = ''WAITING'' \<or> st = ''SUCCESS'')
        \<or> state job = RUNNING \<and> (st = ''WAITING'' \<or> st = ''RUNNING'') \<longrightarrow>
        set_state job st now = Inl AssertionError)
   \<and> set (state_changes job reqs) \<subseteq>
        {(WAITING, RUNNING), (WAITING, FAILED), (RUNNING, SUCCESS), (RUNNING, FAILED)}
   \<and> distinct (state_changes job reqs)"
proof -
  have a: "set_state job st now = Inr job' \<longrightarrow>
      (state job, state job') \<in>
        {(WAITING, RUNNING), (WAITING, FAILED), (RUNNING, SUCCESS), (RUNNING, FAILED)}
      \<and> State_members st = Some (state job')"
  proof
    assume h: "set_state job st now = Inr job'"
    from set_state_pair [OF h] set_state_InrD [OF h]
    show "(state job, state job') \<in>
        {(WAITING, RUNNING), (WAITING, FAILED), (RUNNING, SUCCESS), (RUNNING, FAILED)}
      \<and> State_members st = Some (state job')"
      by (simp only: simp_thms)
  qed
  have b: "state job = SUCCESS \<or> state job = FAILED \<longrightarrow>
             set_state job st now = Inl AssertionError"
    by (simp add: set_state_def)
  have c: "state job = WAITING \<and> (st = ''WAITING'' \<or> st = ''SUCCESS'')
        \<or> state job = RUNNING \<and> (st = ''WAITING'' \<or> st = ''RUNNING'') \<longrightarrow>
        set_state job st now = Inl AssertionError"
    by (simp add: set_state_def)
  note d = state_changes_allowed [of job reqs]
  note e = state_changes_distinct [of job reqs]
  show ?thesis
    by (rule conjI [OF a conjI [OF b conjI [OF c conjI [OF d e]]]])
qed

theorem set_state_transitions_witness:
  "set_state new_job ''RUNNING'' 3 = Inr (new_job\<lparr>state := RUNNING, time_finished := Some 3\<rparr>)
   \<and> (state new_job, state (new_job\<lparr>state := RUNNING, time_finished := Some 3\<rparr>))
       \<in> {(WAITING, RUNNING), (WAITING, FAILED), (RUNNING, SUCCESS), (RUNNING, FAILED)}
   \<and> state (new_job\<lparr>state := SUCCESS\<rparr>) = SUCCESS
   \<and> set_state (new_job\<lparr>state := SUCCESS\<rparr>) ''RUNNING'' 3 = Inl AssertionError
   \<and> state new_job = WAITING
   \<and> set_state new_job ''SUCCESS'' 3 = Inl AssertionError
   \<and> distinct (state_changes new_job
        [(''RUNNING'', 1), (''RUNNING'', 2), (''SUCCESS'', 3), (''FAILED'', 4)])"
proof -
  have r: "set_state new_job ''RUNNING'' 3
             = Inr (new_job\<lparr>state := RUNNING, time_finished := Some 3\<rparr>)"
    by (simp add: set_state_def new_job_def Job_init_def State_members_def)
  have w: "state new_job = WAITING"
    by (simp add: new_job_def Job_init_def)
  have s: "state (new_job\<lparr>state := SUCCESS\<rparr>) = SUCCESS"
    by simp
  note t1 = set_state_transitions [of new_job "''RUNNING''" 3
      "new_job\<lparr>state := RUNNING, time_finished := Some 3\<rparr>"
      "[(''RUNNING'', 1), (''RUNNING'', 2), (''SUCCESS'', 3), (''FAILED'', 4)]"]
  note t2 = set_state_transitions [of "new_job\<lparr>state := SUCCESS\<rparr>" "''RUNNING''" 3 new_job "[]"]
  note t3 = set_state_transitions [of new_job "''SUCCESS''" 3 new_job "[]"]
  note p1 = t1 [THEN conjunct1, THEN mp, OF r, THEN conjunct1]
  note p2 = t2 [THEN conjunct2, THEN conjunct1, THEN mp, OF disjI1 [OF s]]
  note p3 = t3 [THEN conjunct2, THEN conjunct2, THEN conjunct1, THEN mp,
                OF disjI1 [OF conjI [OF w disjI2 [OF refl]]]]
  note p5 = t1 [THEN conjunct2, THEN conjunct2, THEN conjunct2, THEN conjunct2]
  show ?thesis
    by (rule conjI [OF r conjI [OF p1 conjI [OF s conjI [OF p2 conjI [OF w conjI [OF p3 p5]]]]]])
qed

text \<open>Claim C9 says that \<open>time_finished\<close> is written once, at the transition into Success
  or Failed, and that the transition from Waiting to Running leaves it unset. \<open>set_state\<close>
  writes it on every successful call: the first step of \<open>Job.run\<close> on a new job, which
  moves it to Running, stores the clock reading 7 in \<open>time_finished\<close>.\<close>

theorem run_enter_writes_time_finished:
  "run_enter 0 7 (JobsQueue_init plain_heap)
     = (Inr (), (JobsQueue_init plain_heap)
          \<lparr>heap := plain_heap(0 := new_job\<lparr>state := RUNNING, time_finished := Some 7\<rparr>)\<rparr>)
   \<and> time_finished (plain_heap 0) = None"
  by (simp add: run_enter_def JobsQueue_init_def plain_heap_def new_job_def Job_init_def
      set_state_def State_members_def)

section \<open>The bounded store\<close>

lemma od_set_fresh: "k \<notin> fst ` set d \<Longrightarrow> od_set d k v = d @ [(k, v)]"
  by (induction d) auto

lemma JobsDeque_add_room:
  assumes "length (dict d) \<le> maxlen d" and "\<forall>k \<in> fst ` set (dict d). k \<le> count d"
  shows "dict (fst (JobsDeque_add j (d, h))) = dict d @ [(count d + 1, j)]"
    and "count (fst (JobsDeque_add j (d, h))) = count d + 1"
    and "maxlen (fst (JobsDeque_add j (d, h))) = maxlen d"
proof -
  from assms(2) have "count d + 1 \<notin> fst ` set (dict d)" by auto
  with assms(1) show "dict (fst (JobsDeque_add j (d, h))) = dict d @ [(count d + 1, j)]"
    by (simp add: JobsDeque_add_def Let_def od_set_fresh)
  show "count (fst (JobsDeque_add j (d, h))) = count d + 1"
    by (simp add: JobsDeque_add_def Let_def)
  show "maxlen (fst (JobsDeque_add j (d, h))) = maxlen d"
    by (simp add: JobsDeque_add_def Let_def)
qed

lemma add_all_room:
  "length (dict d) + length js \<le> maxlen d + 1 \<Longrightarrow>
   \<forall>k \<in> fst ` set (dict d). k \<le> count d \<Longrightarrow>
   dict (fst (add_all js (d, h))) = dict d @ zip [count d + 1 ..< count d + 1 + length js] js"
proof (induction js arbitrary: d h)
  case Nil
  then show ?case by simp
next
  case (Cons j js)
  obtain d1 h1 where s: "JobsDeque_add j (d, h) = (d1, h1)" by (cases "JobsDeque_add j (d, h)")
  from Cons.prems have le: "length (dict d) \<le> maxlen d" by simp
  from JobsDeque_add_room [OF le Cons.prems(2), of j h] s
  have d1: "dict d1 = dict d @ [(count d + 1, j)]" "count d1 = count d + 1" "maxlen d1 = maxlen d"
    by simp_all
  from Cons.prems d1 have p1: "length (dict d1) + length js \<le> maxlen d1 + 1" by simp
  from Cons.prems(2) d1 have p2: "\<forall>k \<in> fst ` set (dict d1). k \<le> count d1" by auto
  have "[count d + 1 ..< count d + 1 + length (j # js)]
        = (count d + 1) # [count d1 + 1 ..< count d1 + 1 + length js]"
    using d1(2) by (simp add: upt_rec)
  with Cons.IH [OF p1 p2, of h1] s d1 show ?case by simp
qed

text \<open>Claim C3 says that the store never holds more than \<open>N = 1000\<close> entries and that
  after 1001 insertions the job with id 1 is gone. \<open>JobsDeque.add\<close> drops the oldest
  entry only when the store already holds more than \<open>maxlen\<close> entries: after the job
  objects 0 to 1000 have been added to a new store, it holds the 1001 ids 1 to 1001, and
  id 1 still leads to the first job.\<close>

theorem deque_keeps_1001:
  "JobsDeque_all (fst (add_all [0..<1001] (JobsDeque_init 1000, plain_heap)))
     = zip [1..<1002] [0..<1001]
   \<and> length (JobsDeque_all (fst (add_all [0..<1001] (JobsDeque_init 1000, plain_heap)))) = 1001
   \<and> hd (JobsDeque_all (fst (add_all [0..<1001] (JobsDeque_init 1000, plain_heap)))) = (1, 0)"
proof -
  have e: "JobsDeque_all (fst (add_all [0..<1001] (JobsDeque_init 1000, plain_heap)))
     = zip [1..<1002] [0..<1001]"
    using add_all_room [of "JobsDeque_init 1000" "[0..<1001]" plain_heap]
    by (simp add: JobsDeque_init_def JobsDeque_all_def)
  have a: "[1..<1002] = (1::nat) # [Suc 1..<1002]"
    by (rule upt_conv_Cons) simp
  have b: "[0..<1001] = (0::nat) # [Suc 0..<1001]"
    by (rule upt_conv_Cons) simp
  have h: "hd (zip [1..<1002] [0..<1001]) = (1::nat, 0::nat)"
    by (simp only: a b zip_Cons_Cons list.sel)
  have l: "length (zip [1..<1002::nat] [0..<1001::nat]) = 1001"
    by simp
  show ?thesis
  proof (intro conjI)
    show "JobsDeque_all (fst (add_all [0..<1001] (JobsDeque_init 1000, plain_heap)))
            = zip [1..<1002] [0..<1001]"
      by (rule e)
    show "length (JobsDeque_all (fst (add_all [0..<1001] (JobsDeque_init 1000, plain_heap))))
            = 1001"
      by (simp only: e l)
    show "hd (JobsDeque_all (fst (add_all [0..<1001] (JobsDeque_init 1000, plain_heap))))
            = (1, 0)"
      by (simp only: e h)
  qed
qed

section \<open>The selection step and the lock registry on concrete queues\<close>

lemmas job_defs = Job_init_def set_id_def get_lock_name_def set_result_def set_state_def
  State_members_def
lemmas lock_defs = JobSharedLock_init_def add_job_def get_jobs_def remove_job_def locked_def
  acquire_def release_def
lemmas queue_defs = JobsQueue_init_def JobsDeque_init_def JobsDeque_add_def JobsQueue_add_def
  get_lock_def set_lock_def release_lock_def run_enter_def run_leave_def Job_run_def
lemmas ex_defs = noop_body_def no_options_def lock_options_def new_job_def plain_heap_def
  backup_heap_def

text \<open>Claim C5 says that the selection step returns the first job whose lock is absent or
  free, and that this succeeds for a job with no lock as well. For a job with no lock
  \<open>get_lock\<close> returns \<open>None\<close>, the job is chosen, and \<open>set_lock\<close> then calls \<open>acquire\<close> on
  \<open>None\<close>: on a queue that holds one job without a lock, \<open>next\<close> raises instead of
  returning the job, and the job stays in the queue.\<close>

theorem next_raises_without_lock:
  "fst (JobsQueue_next plain_q) = Raise (AttributeError ''NoneType object has no attribute acquire'')
   \<and> queue (snd (JobsQueue_next plain_q)) = [0]
   \<and> queue plain_q = [0] \<and> get_lock_name (heap plain_q 0) = None"
  by (simp add: plain_q_def JobsQueue_next.simps job_defs lock_defs queue_defs ex_defs Let_def)

text \<open>Claim C6 says that a registry entry exists exactly while a job references its name
  and goes with the release of the last such job. \<open>get_lock\<close> appends the job to the
  list of the lock every time the selection step looks at the job, and \<open>release_lock\<close>
  removes one occurrence: job 1, looked at once while job 0 held the lock \<open>backup\<close> and
  once when it was selected, is still listed after its own release. Both jobs have
  finished, the queue is empty, the semaphore is free, and the entry \<open>backup\<close> is still
  in the registry.\<close>

theorem backup_entry_outlives_jobs:
  "fst (JobsQueue_next backup_q1) = Return 0
   \<and> fst (JobsQueue_next backup_q3) = Block
   \<and> fst (Job_run 0 10 11 backup_q4) = Return ()
   \<and> fst (JobsQueue_next backup_q5) = Return 1
   \<and> fst (Job_run 1 12 13 backup_q6) = Return ()
   \<and> state (heap backup_q7 0) = SUCCESS
   \<and> state (heap backup_q7 1) = SUCCESS
   \<and> queue backup_q7 = []
   \<and> job_locks backup_q7 ''backup'' = Some 0
   \<and> jobs (locks backup_q7 0) = [1]
   \<and> semaphore (locks backup_q7 0) = 1"
  by (simp add: backup_q1_def backup_q2_def backup_q3_def backup_q4_def backup_q5_def
      backup_q6_def backup_q7_def JobsQueue_next.simps job_defs lock_defs queue_defs ex_defs Let_def)

section \<open>The dispatcher\<close>

lemma method_msg_simps:
  "method_msg m ''msg'' = Some (PStr ''method'')"
  "method_msg m ''id'' = Some (PInt 1)"
  "method_msg m ''method'' = Some (PStr m)"
  "method_msg m ''params'' = None"
  by (simp_all add: method_msg_def)

lemma connect_msg_simps:
  "connect_msg v ''msg'' = Some (PStr ''connect'')"
  "connect_msg v ''version'' = Some (PStr v)"
  "connect_msg v ''id'' = None"
  by (simp_all add: connect_msg_def)

lemma rsplit_backup_run: "rsplit_dot ''backup.run'' = Some (''backup'', ''run'')"
  by (simp add: rsplit_dot_def)

lemma rsplit_system_info: "rsplit_dot ''system.info'' = Some (''system'', ''info'')"
  by (simp add: rsplit_dot_def)

lemma resolve_backup_run:
  "resolve (method_msg ''backup.run'') example_mw = Inr (''backup'', ''run'', run_obj)"
  by (simp add: resolve_def rsplit_backup_run method_msg_simps example_mw_def example_services_def backup_service_def)

lemma resolve_system_info:
  "resolve (method_msg ''system.info'') example_mw = Inr (''system'', ''info'', info_obj)"
  by (simp add: resolve_def rsplit_system_info method_msg_simps example_mw_def example_services_def system_service_def)

text \<open>Claim C4 says that a call of a method marked as a job builds a Job with the method,
  arguments and options, submits it and returns its id. The dispatcher calls the
  constructor with no argument, which raises: for an authenticated session and the job
  method \<open>backup.run\<close> the dispatcher returns the type error, the caller receives an error
  reply, and no job is stored or spawned.\<close>

theorem job_call_raises:
  "Middleware_call_method (method_msg ''backup.run'') 5 (example_app True True, example_mw)
     = (Inl (TypeError ''__init__() takes exactly 4 arguments (1 given)''),
        example_app True True, example_mw)
   \<and> Application_call_method (method_msg ''backup.run'') 5 (example_app True True, example_mw)
     = (Inr (),
        send (example_app True True)
          (error_reply (PInt 1) ''__init__() takes exactly 4 arguments (1 given)''
             (PStr ''__init__() takes exactly 4 arguments (1 given)'')),
        example_mw)
   \<and> is_job run_obj"
proof -
  have m: "Middleware_call_method (method_msg ''backup.run'') 5 (example_app True True, example_mw)
     = (Inl (TypeError ''__init__() takes exactly 4 arguments (1 given)''),
        example_app True True, example_mw)"
    by (simp add: Middleware_call_method_def resolve_backup_run call_job_def)
       (simp add: run_obj_def example_app_def)
  have a: "Application_call_method (method_msg ''backup.run'') 5 (example_app True True, example_mw)
     = (Inr (),
        send (example_app True True)
          (error_reply (PInt 1) ''__init__() takes exactly 4 arguments (1 given)''
             (PStr ''__init__() takes exactly 4 arguments (1 given)'')),
        example_mw)"
    by (simp add: Application_call_method_def m method_msg_simps)
       (simp add: send_error_def example_app_def method_msg_simps)
  have j: "is_job run_obj" by (simp add: run_obj_def)
  show ?thesis by (rule conjI [OF m conjI [OF a j]])
qed

text \<open>Claim C8: a method call from a session that is not authenticated, to a method that
  resolves and is not marked as needing no authentication, makes the dispatcher append to
  what the session was sent the error reply
  \<open>{msg: result, id: <id of the call>, error: {error: Not authenticated, stacktrace: None}}\<close>
  and return \<open>None\<close>, with the session otherwise and the middleware unchanged: no method
  body is invoked and nothing is spawned. Through \<open>Application.call_method\<close> the caller is
  sent that error reply, followed by a result reply that carries the \<open>None\<close> which the
  dispatcher returned.\<close>

theorem unauthenticated_call_denied:
  assumes "\<not> authenticated app" and "message ''id'' = Some i"
    and "resolve message mw = Inr (sname, meth, mo)" and "\<not> no_auth_required mo"
  shows "Middleware_call_method message now (app, mw)
           = (Inr PNone,
              app\<lparr>sent := sent app @
                 [PDict [(''msg'', PStr ''result''), (''id'', i),
                         (''error'', PDict [(''error'', PStr ''Not authenticated''),
                                            (''stacktrace'', PNone)])]]\<rparr>,
              mw)
       \<and> Application_call_method message now (app, mw)
           = (Inr (),
              app\<lparr>sent := sent app @
                 [PDict [(''msg'', PStr ''result''), (''id'', i),
                         (''error'', PDict [(''error'', PStr ''Not authenticated''),
                                            (''stacktrace'', PNone)])],
                  PDict [(''id'', i), (''msg'', PStr ''result''), (''result'', PNone)]]\<rparr>,
              mw)"
proof -
  from assms have m: "Middleware_call_method message now (app, mw)
           = (Inr PNone,
              app\<lparr>sent := sent app @
                 [PDict [(''msg'', PStr ''result''), (''id'', i),
                         (''error'', PDict [(''error'', PStr ''Not authenticated''),
                                            (''stacktrace'', PNone)])]]\<rparr>,
              mw)"
    by (simp add: Middleware_call_method_def send_error_def send_def error_reply_def)
  from assms(2) have a: "Application_call_method message now (app, mw)
           = (Inr (),
              app\<lparr>sent := sent app @
                 [PDict [(''msg'', PStr ''result''), (''id'', i),
                         (''error'', PDict [(''error'', PStr ''Not authenticated''),
                                            (''stacktrace'', PNone)])],
                  PDict [(''id'', i), (''msg'', PStr ''result''), (''result'', PNone)]]\<rparr>,
              mw)"
    by (simp add: Application_call_method_def m send_def)
  show ?thesis by (rule conjI [OF m a])
qed

theorem unauthenticated_call_denied_witness:
  "\<not> authenticated (example_app False True)
   \<and> method_msg ''system.info'' ''id'' = Some (PInt 1)
   \<and> resolve (method_msg ''system.info'') example_mw = Inr (''system'', ''info'', info_obj)
   \<and> \<not> no_auth_required info_obj
   \<and> Middleware_call_method (method_msg ''system.info'') 5 (example_app False True, example_mw)
       = (Inr PNone,
          (example_app False True)\<lparr>sent := sent (example_app False True) @
             [PDict [(''msg'', PStr ''result''), (''id'', PInt 1),
                     (''error'', PDict [(''error'', PStr ''Not authenticated''),
                                        (''stacktrace'', PNone)])]]\<rparr>,
          example_mw)
   \<and> Application_call_method (method_msg ''system.info'') 5 (example_app False True, example_mw)
       = (Inr (),
          (example_app False True)\<lparr>sent := sent (example_app False True) @
             [PDict [(''msg'', PStr ''result''), (''id'', PInt 1),
                     (''error'', PDict [(''error'', PStr ''Not authenticated''),
                                        (''stacktrace'', PNone)])],
              PDict [(''id'', PInt 1), (''msg'', PStr ''result''), (''result'', PNone)]]\<rparr>,
          example_mw)
   \<and> sent (example_app False True) = []
   \<and> calls example_mw = []"
proof -
  have a: "\<not> authenticated (example_app False True)"
    by (simp add: example_app_def)
  have i: "method_msg ''system.info'' ''id'' = Some (PInt 1)"
    by (simp add: method_msg_simps)
  have n: "\<not> no_auth_required info_obj"
    by (simp add: info_obj_def)
  have s: "sent (example_app False True) = []"
    by (simp add: example_app_def)
  have c: "calls example_mw = []"
    by (simp add: example_mw_def)
  note t = unauthenticated_call_denied [OF a i resolve_system_info n, where now = 5]
  show ?thesis
    by (rule conjI [OF a conjI [OF i conjI [OF resolve_system_info conjI [OF n
          conjI [OF t [THEN conjunct1] conjI [OF t [THEN conjunct2] conjI [OF s c]]]]]]])
qed

section \<open>The session protocol\<close>

lemma run_callbacks_eq:
  "run_callbacks cbs message app
     = app\<lparr>logged := logged app + length (filter (\<lambda>cb. cb message) cbs)\<rparr>"
  by (induction cbs arbitrary: app) simp_all

lemma run_callbacks_fields:
  "authenticated (run_callbacks cbs message app) = authenticated app"
  "handshake (run_callbacks cbs message app) = handshake app"
  "sessionid (run_callbacks cbs message app) = sessionid app"
  "sent (run_callbacks cbs message app) = sent app"
  "format_exception (run_callbacks cbs message app) = format_exception app"
  by (simp_all add: run_callbacks_eq)

lemma send_fields:
  "authenticated (send app d) = authenticated app"
  "handshake (send app d) = handshake app"
  "sessionid (send app d) = sessionid app"
  "sent (send app d) = sent app @ [d]"
  "format_exception (send app d) = format_exception app"
  by (simp_all add: send_def)

text \<open>Claim C7: on a session that has not completed the handshake, a connect message with
  version \<open>1\<close> is answered with the reply \<open>{msg: connected, session: <session id>}\<close> and
  completes the handshake; a connect message with another version or none is answered
  with the reply \<open>{msg: failed, version: 1}\<close> and the handshake stays open; a message with
  another \<open>msg\<close> value is answered with the same failed reply and the handshake stays
  open; each of these replies is the only one sent; and whatever the message, the
  middleware is unchanged, so nothing is dispatched.\<close>

theorem handshake_protocol:
  assumes "\<not> handshake app"
  shows "(message ''msg'' = Some (PStr ''connect'') \<and> message ''version'' = Some (PStr ''1'')
           \<longrightarrow> (\<exists>app'. on_message message now (app, mw) = (Inr (), app', mw)
                    \<and> sent app' = sent app
                         @ [PDict [(''msg'', PStr ''connected''),
                                   (''session'', PStr (sessionid app))]]
                    \<and> handshake app'))
       \<and> (message ''msg'' = Some (PStr ''connect'') \<and> message ''version'' \<noteq> Some (PStr ''1'')
           \<longrightarrow> (\<exists>app'. on_message message now (app, mw) = (Inr (), app', mw)
                    \<and> sent app' = sent app
                         @ [PDict [(''msg'', PStr ''failed''), (''version'', PStr ''1'')]]
                    \<and> \<not> handshake app'))
       \<and> (message ''msg'' = Some m \<and> m \<noteq> PStr ''connect''
           \<longrightarrow> (\<exists>app'. on_message message now (app, mw) = (Inr (), app', mw)
                    \<and> sent app' = sent app
                         @ [PDict [(''msg'', PStr ''failed''), (''version'', PStr ''1'')]]
                    \<and> \<not> handshake app'))
       \<and> snd (snd (on_message message now (app, mw))) = mw"
proof (intro conjI impI)
  assume "message ''msg'' = Some (PStr ''connect'') \<and> message ''version'' = Some (PStr ''1'')"
  then show "\<exists>app'. on_message message now (app, mw) = (Inr (), app', mw)
                    \<and> sent app' = sent app
                         @ [PDict [(''msg'', PStr ''connected''),
                                   (''session'', PStr (sessionid app))]]
                    \<and> handshake app'"
    by (simp add: on_message_def Let_def run_callbacks_fields send_fields connected_reply_def)
next
  assume "message ''msg'' = Some (PStr ''connect'') \<and> message ''version'' \<noteq> Some (PStr ''1'')"
  with assms show "\<exists>app'. on_message message now (app, mw) = (Inr (), app', mw)
                    \<and> sent app' = sent app
                         @ [PDict [(''msg'', PStr ''failed''), (''version'', PStr ''1'')]]
                    \<and> \<not> handshake app'"
    by (simp add: on_message_def Let_def run_callbacks_fields send_fields failed_reply_def)
next
  assume "message ''msg'' = Some m \<and> m \<noteq> PStr ''connect''"
  with assms show "\<exists>app'. on_message message now (app, mw) = (Inr (), app', mw)
                    \<and> sent app' = sent app
                         @ [PDict [(''msg'', PStr ''failed''), (''version'', PStr ''1'')]]
                    \<and> \<not> handshake app'"
    by (simp add: on_message_def Let_def run_callbacks_fields send_fields failed_reply_def)
next
  from assms show "snd (snd (on_message message now (app, mw))) = mw"
    by (simp add: on_message_def Let_def run_callbacks_fields split: option.splits)
qed

theorem handshake_protocol_witness:
  "\<not> handshake (example_app False False)
   \<and> connect_msg ''1'' ''msg'' = Some (PStr ''connect'')
   \<and> connect_msg ''1'' ''version'' = Some (PStr ''1'')
   \<and> (\<exists>app'. on_message (connect_msg ''1'') 5 (example_app False False, example_mw)
                 = (Inr (), app', example_mw)
              \<and> sent app' = sent (example_app False False)
                   @ [PDict [(''msg'', PStr ''connected''),
                             (''session'', PStr (sessionid (example_app False False)))]]
              \<and> handshake app')
   \<and> connect_msg ''2'' ''version'' \<noteq> Some (PStr ''1'')
   \<and> (\<exists>app'. on_message (connect_msg ''2'') 5 (example_app False False, example_mw)
                 = (Inr (), app', example_mw)
              \<and> sent app' = sent (example_app False False)
                   @ [PDict [(''msg'', PStr ''failed''), (''version'', PStr ''1'')]]
              \<and> \<not> handshake app')
   \<and> method_msg ''system.info'' ''msg'' = Some (PStr ''method'')
   \<and> PStr ''method'' \<noteq> PStr ''connect''
   \<and> (\<exists>app'. on_message (method_msg ''system.info'') 5 (example_app False False, example_mw)
                 = (Inr (), app', example_mw)
              \<and> sent app' = sent (example_app False False)
                   @ [PDict [(''msg'', PStr ''failed''), (''version'', PStr ''1'')]]
              \<and> \<not> handshake app')
   \<and> sessionid (example_app False False) = ''session-1''"
proof -
  have h: "\<not> handshake (example_app False False)"
    by (simp add: example_app_def)
  have sid: "sessionid (example_app False False) = ''session-1''"
    by (simp add: example_app_def)
  have c1: "connect_msg ''1'' ''msg'' = Some (PStr ''connect'')"
    and v1: "connect_msg ''1'' ''version'' = Some (PStr ''1'')"
    and c2: "connect_msg ''2'' ''msg'' = Some (PStr ''connect'')"
    and v2: "connect_msg ''2'' ''version'' \<noteq> Some (PStr ''1'')"
    and m3: "method_msg ''system.info'' ''msg'' = Some (PStr ''method'')"
    and n3: "PStr ''method'' \<noteq> PStr ''connect''"
    by (simp_all add: connect_msg_simps method_msg_simps)
  note t1 = handshake_protocol [OF h, where message = "connect_msg ''1''" and m = "PStr ''method''"
      and now = 5 and mw = example_mw]
  note t2 = handshake_protocol [OF h, where message = "connect_msg ''2''" and m = "PStr ''method''"
      and now = 5 and mw = example_mw]
  note t3 = handshake_protocol [OF h, where message = "method_msg ''system.info''"
      and m = "PStr ''method''" and now = 5 and mw = example_mw]
  note p1 = t1 [THEN conjunct1, THEN mp, OF conjI [OF c1 v1]]
  note p2 = t2 [THEN conjunct2, THEN conjunct1, THEN mp, OF conjI [OF c2 v2]]
  note p3 = t3 [THEN conjunct2, THEN conjunct2, THEN conjunct1, THEN mp, OF conjI [OF m3 n3]]
  show ?thesis
    by (rule conjI [OF h conjI [OF c1 conjI [OF v1 conjI [OF p1 conjI [OF v2 conjI [OF p2
          conjI [OF m3 conjI [OF n3 conjI [OF p3 sid]]]]]]]]])
qed

lemma Middleware_call_method_app:
  assumes "Middleware_call_method message now (app, mw) = (r, app1, mw1)"
  shows "authenticated app1 = authenticated app
         \<and> format_exception app1 = format_exception app
         \<and> (\<exists>rs. sent app1 = sent app @ rs)"
proof (cases "resolve message mw")
  case (Inl e)
  with assms show ?thesis by (simp add: Middleware_call_method_def)
next
  case (Inr t)
  obtain sname meth mo where t: "t = (sname, meth, mo)" by (cases t)
  show ?thesis
  proof (cases "\<not> authenticated app \<and> \<not> no_auth_required mo")
    case True
    with assms Inr t show ?thesis
      by (auto simp: Middleware_call_method_def send_error_def send_fields
          split: option.splits)
  next
    case False
    with assms Inr t show ?thesis
      by (auto simp: Middleware_call_method_def split: prod.splits if_splits)
  qed
qed

lemma Application_call_method_replies:
  assumes "message ''id'' = Some i"
  shows "\<exists>app1 mw1 rs. Application_call_method message now (app, mw) = (Inr (), app1, mw1)
           \<and> sent app1 = sent app @ rs \<and> rs \<noteq> []
           \<and> authenticated app1 = authenticated app"
proof -
  obtain r app0 mw0 where m: "Middleware_call_method message now (app, mw) = (r, app0, mw0)"
    by (cases "Middleware_call_method message now (app, mw)")
  from Middleware_call_method_app [OF m] obtain rs0 where
    f: "authenticated app0 = authenticated app" "sent app0 = sent app @ rs0"
    by blast
  show ?thesis
  proof (cases r)
    case (Inl e)
    with assms m f show ?thesis
      by (simp add: Application_call_method_def send_error_def send_fields)
  next
    case (Inr v)
    with assms m f show ?thesis
      by (simp add: Application_call_method_def send_fields)
  qed
qed

text \<open>Claim C10, as stated, says that a connected session that is not authenticated gets
  the \<open>Not authenticated\<close> error reply after every inbound message. A connect message
  returns right after its own reply: on such a session, which was sent nothing before, a
  connect message with version \<open>1\<close> leaves the connected reply as the only reply sent.\<close>

theorem connect_gets_no_extra_reply:
  "fst (on_message (connect_msg ''1'') 5 (example_app False True, example_mw)) = Inr ()
   \<and> sent (fst (snd (on_message (connect_msg ''1'') 5 (example_app False True, example_mw))))
       = [PDict [(''msg'', PStr ''connected''), (''session'', PStr ''session-1'')]]
   \<and> sent (example_app False True) = []
   \<and> handshake (example_app False True) \<and> \<not> authenticated (example_app False True)"
  by (simp add: on_message_def connect_msg_simps Let_def)
     (simp add: example_app_def send_def connected_reply_def)

text \<open>Claim C10, amended: on a connected session that is not authenticated, every inbound
  message other than connect that carries an id is answered, after it has been
  processed, with the error reply
  \<open>{msg: result, id: <id>, error: {error: Not authenticated, stacktrace: None}}\<close> as the
  last reply; for a method message the call path has sent at least one reply before it, so
  the session receives more than one reply for that message, and for the other messages
  it is the only reply. A connect message is answered with one reply only, the connected
  reply \<open>{msg: connected, session: <session id>}\<close> for version \<open>1\<close> and the failed reply
  \<open>{msg: failed, version: 1}\<close> otherwise, and the session stays connected and not
  authenticated.\<close>

theorem unauthenticated_session_extra_reply:
  assumes "handshake app" and "\<not> authenticated app"
  shows "(message ''msg'' = Some m \<and> m \<noteq> PStr ''connect'' \<and> message ''id'' = Some i
           \<longrightarrow> (\<exists>app' mw' rs. on_message message now (app, mw) = (Inr (), app', mw')
                  \<and> sent app' = sent app @ rs
                       @ [PDict [(''msg'', PStr ''result''), (''id'', i),
                                 (''error'', PDict [(''error'', PStr ''Not authenticated''),
                                                    (''stacktrace'', PNone)])]]
                  \<and> (m = PStr ''method'' \<longrightarrow> rs \<noteq> [])
                  \<and> (m \<noteq> PStr ''method'' \<longrightarrow> rs = [])))
       \<and> (message ''msg'' = Some (PStr ''connect'')
           \<longrightarrow> (\<exists>app'. on_message message now (app, mw) = (Inr (), app', mw)
                  \<and> sent app' = sent app
                       @ [if message ''version'' = Some (PStr ''1'')
                          then PDict [(''msg'', PStr ''connected''),
                                      (''session'', PStr (sessionid app))]
                          else PDict [(''msg'', PStr ''failed''), (''version'', PStr ''1'')]]
                  \<and> handshake app' \<and> \<not> authenticated app'))"
proof (intro conjI impI)
  assume h: "message ''msg'' = Some m \<and> m \<noteq> PStr ''connect'' \<and> message ''id'' = Some i"
  then have mm: "message ''msg'' = Some m" and nc: "m \<noteq> PStr ''connect''"
    and mi: "message ''id'' = Some i"
    by simp_all
  show "\<exists>app' mw' rs. on_message message now (app, mw) = (Inr (), app', mw')
          \<and> sent app' = sent app @ rs
               @ [PDict [(''msg'', PStr ''result''), (''id'', i),
                         (''error'', PDict [(''error'', PStr ''Not authenticated''),
                                            (''stacktrace'', PNone)])]]
          \<and> (m = PStr ''method'' \<longrightarrow> rs \<noteq> [])
          \<and> (m \<noteq> PStr ''method'' \<longrightarrow> rs = [])"
  proof (cases "m = PStr ''method''")
    case True
    let ?app = "run_callbacks (callbacks_on_message app) message app"
    from Application_call_method_replies [where message = message and i = i and now = now
        and app = ?app and mw = mw, OF mi]
    obtain app1 mw1 rs where
      c: "Application_call_method message now (?app, mw) = (Inr (), app1, mw1)"
      and s: "sent app1 = sent ?app @ rs" and n: "rs \<noteq> []"
      and a: "authenticated app1 = authenticated ?app"
      by blast
    from assms mm mi True c s n a have
      "on_message message now (app, mw)
         = (Inr (), send app1 (error_reply i ''Not authenticated'' PNone), mw1)"
      by (simp add: on_message_def Let_def run_callbacks_fields send_error_def)
    with s n True show ?thesis
      by (simp add: send_fields run_callbacks_fields error_reply_def)
  next
    case False
    with assms mm nc mi have
      "on_message message now (app, mw)
         = (Inr (), send (run_callbacks (callbacks_on_message app) message app)
                      (error_reply i ''Not authenticated'' PNone), mw)"
      by (simp add: on_message_def Let_def run_callbacks_fields send_error_def)
    with False show ?thesis
      by (simp add: send_fields run_callbacks_fields error_reply_def)
  qed
next
  assume "message ''msg'' = Some (PStr ''connect'')"
  with assms show "\<exists>app'. on_message message now (app, mw) = (Inr (), app', mw)
          \<and> sent app' = sent app
               @ [if message ''version'' = Some (PStr ''1'')
                  then PDict [(''msg'', PStr ''connected''),
                              (''session'', PStr (sessionid app))]
                  else PDict [(''msg'', PStr ''failed''), (''version'', PStr ''1'')]]
          \<and> handshake app' \<and> \<not> authenticated app'"
    by (simp add: on_message_def Let_def run_callbacks_fields send_fields
        connected_reply_def failed_reply_def)
qed

theorem unauthenticated_session_extra_reply_witness:
  "handshake (example_app False True) \<and> \<not> authenticated (example_app False True)
   \<and> method_msg ''system.info'' ''msg'' = Some (PStr ''method'')
   \<and> PStr ''method'' \<noteq> PStr ''connect''
   \<and> method_msg ''system.info'' ''id'' = Some (PInt 1)
   \<and> (\<exists>app' mw' rs.
          on_message (method_msg ''system.info'') 5 (example_app False True, example_mw)
            = (Inr (), app', mw')
          \<and> sent app' = sent (example_app False True) @ rs
               @ [PDict [(''msg'', PStr ''result''), (''id'', PInt 1),
                         (''error'', PDict [(''error'', PStr ''Not authenticated''),
                                            (''stacktrace'', PNone)])]]
          \<and> (PStr ''method'' = PStr ''method'' \<longrightarrow> rs \<noteq> [])
          \<and> (PStr ''method'' \<noteq> PStr ''method'' \<longrightarrow> rs = []))
   \<and> connect_msg ''2'' ''msg'' = Some (PStr ''connect'')
   \<and> (\<exists>app'. on_message (connect_msg ''2'') 5 (example_app False True, example_mw)
                 = (Inr (), app', example_mw)
          \<and> sent app' = sent (example_app False True)
               @ [if connect_msg ''2'' ''version'' = Some (PStr ''1'')
                  then PDict [(''msg'', PStr ''connected''),
                              (''session'', PStr (sessionid (example_app False True)))]
                  else PDict [(''msg'', PStr ''failed''), (''version'', PStr ''1'')]]
          \<and> handshake app' \<and> \<not> authenticated app')
   \<and> connect_msg ''2'' ''version'' \<noteq> Some (PStr ''1'')"
proof -
  have h: "handshake (example_app False True)"
    and a: "\<not> authenticated (example_app False True)"
    by (simp_all add: example_app_def)
  have m: "method_msg ''system.info'' ''msg'' = Some (PStr ''method'')"
    and i: "method_msg ''system.info'' ''id'' = Some (PInt 1)"
    by (simp_all add: method_msg_simps)
  have n: "PStr ''method'' \<noteq> PStr ''connect''"
    by simp
  have c: "connect_msg ''2'' ''msg'' = Some (PStr ''connect'')"
    and v: "connect_msg ''2'' ''version'' \<noteq> Some (PStr ''1'')"
    by (simp_all add: connect_msg_simps)
  note t1 = unauthenticated_session_extra_reply [OF h a,
      where message = "method_msg ''system.info''" and m = "PStr ''method''" and i = "PInt 1"
        and now = 5 and mw = example_mw]
  note t2 = unauthenticated_session_extra_reply [OF h a,
      where message = "connect_msg ''2''" and m = "PStr ''method''" and i = "PInt 1"
        and now = 5 and mw = example_mw]
  note p1 = t1 [THEN conjunct1, THEN mp, OF conjI [OF m conjI [OF n i]]]
  note p2 = t2 [THEN conjunct2, THEN mp, OF c]
  show ?thesis
    by (rule conjI [OF h conjI [OF a conjI [OF m conjI [OF n conjI [OF i conjI [OF p1
          conjI [OF c conjI [OF p2 v]]]]]]]])
qed

section \<open>Mutual exclusion of running jobs\<close>

lemma get_lock_name_lock_upd [simp]:
  "get_lock_name (job\<lparr>lock := lk\<rparr>) = get_lock_name job"
  by (simp add: get_lock_name_def split: option.splits optval.splits)

lemma lock_frame_refl [simp]: "lock_frame q q"
  unfolding lock_frame_def
proof
  fix i
  have "heap q i = (heap q i)\<lparr>lock := lock (heap q i)\<rparr>" by simp
  then show "\<exists>lk. heap q i = (heap q i)\<lparr>lock := lk\<rparr>" ..
qed

lemma lock_frame_heap_eq: "heap q' = heap q \<Longrightarrow> lock_frame q q'"
  unfolding lock_frame_def
proof
  fix i
  assume "heap q' = heap q"
  then have "heap q' i = (heap q i)\<lparr>lock := lock (heap q i)\<rparr>" by simp
  then show "\<exists>lk. heap q' i = (heap q i)\<lparr>lock := lk\<rparr>" ..
qed

lemma lock_frame_trans: "lock_frame q q1 \<Longrightarrow> lock_frame q1 q2 \<Longrightarrow> lock_frame q q2"
  unfolding lock_frame_def
proof
  fix i
  assume a: "\<forall>i. \<exists>lk. heap q1 i = (heap q i)\<lparr>lock := lk\<rparr>"
    and b: "\<forall>i. \<exists>lk. heap q2 i = (heap q1 i)\<lparr>lock := lk\<rparr>"
  from a obtain lk1 where 1: "heap q1 i = (heap q i)\<lparr>lock := lk1\<rparr>" by blast
  from b obtain lk2 where 2: "heap q2 i = (heap q1 i)\<lparr>lock := lk2\<rparr>" by blast
  from 1 2 have "heap q2 i = (heap q i)\<lparr>lock := lk2\<rparr>" by simp
  then show "\<exists>lk. heap q2 i = (heap q i)\<lparr>lock := lk\<rparr>" ..
qed

lemma lock_frameD:
  assumes "lock_frame q q'"
  shows "state (heap q' i) = state (heap q i)"
    and "job_id (heap q' i) = job_id (heap q i)"
    and "get_lock_name (heap q' i) = get_lock_name (heap q i)"
proof -
  from assms obtain lk where h: "heap q' i = (heap q i)\<lparr>lock := lk\<rparr>"
    unfolding lock_frame_def by blast
  show "state (heap q' i) = state (heap q i)" by (simp add: h)
  show "job_id (heap q' i) = job_id (heap q i)" by (simp add: h)
  show "get_lock_name (heap q' i) = get_lock_name (heap q i)" by (simp add: h)
qed

lemma get_lock_None:
  "get_lock_name (heap q j) = None \<Longrightarrow> get_lock j q = (None, q)"
  by (simp add: get_lock_def)

lemma get_lock_Some:
  assumes n: "get_lock_name (heap q j) = Some n"
  shows "\<exists>l q'. get_lock j q = (Some l, q') \<and> job_locks q' n = Some l
           \<and> heap q' = heap q \<and> queue q' = queue q \<and> queue_event q' = queue_event q
           \<and> deque q' = deque q"
  using n by (simp add: get_lock_def split: option.splits)

lemma get_lock_frame:
  "get_lock j q = (lk, q') \<Longrightarrow>
     heap q' = heap q \<and> queue q' = queue q \<and> queue_event q' = queue_event q \<and> deque q' = deque q"
  by (auto simp: get_lock_def split: option.splits)

lemma get_lock_qinv:
  assumes inv: "qinv A q" and g: "get_lock j q = (lk, q')"
  shows "qinv A q'"
proof (cases "get_lock_name (heap q j)")
  case None
  with g inv show ?thesis by (simp add: get_lock_def)
next
  case (Some n)
  from inv have i1: "\<forall>j \<in> set A. \<exists>n l. get_lock_name (heap q j) = Some n \<and> job_locks q n = Some l
                        \<and> lock (heap q j) = Some l"
    and i2: "\<forall>n l. job_locks q n = Some l \<longrightarrow> name (locks q l) = n \<and> l < lock_count q"
    and i3: "\<forall>l. semaphore (locks q l) + length (holders A q l) \<le> 1"
    by (simp_all add: qinv_def)
  show ?thesis
  proof (cases "job_locks q n")
    case (Some l)
    with g \<open>get_lock_name (heap q j) = Some n\<close>
    have q': "q' = q\<lparr>locks := (locks q)(l := add_job (locks q l) j)\<rparr>"
      by (auto simp: get_lock_def)
    from i1 i2 i3 show ?thesis
      unfolding qinv_def q' by (simp add: holders_def add_job_def)
  next
    case None
    with g \<open>get_lock_name (heap q j) = Some n\<close>
    have q': "q' = q\<lparr>locks := (locks q)(lock_count q := add_job (JobSharedLock_init n) j),
                      lock_count := lock_count q + 1,
                      job_locks := (job_locks q)(n \<mapsto> lock_count q)\<rparr>"
      by (auto simp: get_lock_def)
    have fresh: "holders A q (lock_count q) = []"
    proof -
      have "\<forall>k \<in> set A. lock (heap q k) \<noteq> Some (lock_count q)"
      proof
        fix k assume "k \<in> set A"
        with i1 obtain n' l' where "job_locks q n' = Some l'" "lock (heap q k) = Some l'"
          by blast
        with i2 show "lock (heap q k) \<noteq> Some (lock_count q)" by auto
      qed
      then show ?thesis by (simp add: holders_def filter_empty_conv)
    qed
    have c1: "\<forall>k \<in> set A. \<exists>n' l. get_lock_name (heap q' k) = Some n' \<and> job_locks q' n' = Some l
                        \<and> lock (heap q' k) = Some l"
    proof
      fix k assume "k \<in> set A"
      with i1 obtain n' l' where k: "get_lock_name (heap q k) = Some n'"
        "job_locks q n' = Some l'" "lock (heap q k) = Some l'"
        by blast
      with None have "n' \<noteq> n" by auto
      with k show "\<exists>n' l. get_lock_name (heap q' k) = Some n' \<and> job_locks q' n' = Some l
                        \<and> lock (heap q' k) = Some l"
        by (simp add: q')
    qed
    have c2: "\<forall>n' l. job_locks q' n' = Some l \<longrightarrow> name (locks q' l) = n' \<and> l < lock_count q'"
    proof (intro allI impI)
      fix n' l assume a: "job_locks q' n' = Some l"
      show "name (locks q' l) = n' \<and> l < lock_count q'"
      proof (cases "n' = n")
        case True
        with a show ?thesis by (simp add: q' add_job_def JobSharedLock_init_def)
      next
        case False
        with a have b: "job_locks q n' = Some l" by (simp add: q')
        with i2 have "name (locks q l) = n'" "l < lock_count q" by auto
        then show ?thesis by (simp add: q')
      qed
    qed
    have c3: "\<forall>l. semaphore (locks q' l) + length (holders A q' l) \<le> 1"
    proof
      fix l
      show "semaphore (locks q' l) + length (holders A q' l) \<le> 1"
      proof (cases "l = lock_count q")
        case True
        with fresh show ?thesis
          by (simp add: q' holders_def add_job_def JobSharedLock_init_def)
      next
        case False
        with i3 show ?thesis by (simp add: q' holders_def)
      qed
    qed
    from c1 c2 c3 show ?thesis unfolding qinv_def by blast
  qed
qed

lemma holders_upd_other:
  "j \<notin> set A \<Longrightarrow> holders A (q\<lparr>heap := (heap q)(j := x)\<rparr>) l = holders A q l"
  unfolding holders_def by (rule filter_cong) auto

lemma holders_locks_upd [simp]: "holders A (q\<lparr>locks := L\<rparr>) l = holders A q l"
  by (simp add: holders_def)

lemma holders_append: "holders (A @ B) q l = holders A q l @ holders B q l"
  by (simp add: holders_def)

lemma qinv_fields [simp]:
  "qinv A (q\<lparr>queue := qs\<rparr>) = qinv A q"
  "qinv A (q\<lparr>queue_event := e\<rparr>) = qinv A q"
  "qinv A (q\<lparr>deque := d\<rparr>) = qinv A q"
  by (simp_all add: qinv_def holders_def)

lemma set_lock_Some:
  assumes inv: "qinv A q" and j: "j \<notin> set A"
    and n: "get_lock_name (heap q j) = Some n" and r: "job_locks q n = Some l"
    and free: "\<not> locked (locks q l)"
  shows "\<exists>q'. set_lock j (Some l) q = (Return (), q') \<and> qinv (A @ [j]) q' \<and> lock_frame q q'
           \<and> queue q' = queue q \<and> queue_event q' = queue_event q \<and> deque q' = deque q"
proof -
  let ?h = "(heap q)(j := (heap q j)\<lparr>lock := Some l\<rparr>)"
  let ?q' = "q\<lparr>heap := ?h,
               locks := (locks q)(l := (locks q l)\<lparr>semaphore := semaphore (locks q l) - 1\<rparr>)\<rparr>"
  from free have pos: "0 < semaphore (locks q l)" by (simp add: locked_def)
  then have e: "set_lock j (Some l) q = (Return (), ?q')"
    by (simp add: set_lock_def acquire_def Let_def)
  from inv have i1: "\<forall>j \<in> set A. \<exists>n l. get_lock_name (heap q j) = Some n \<and> job_locks q n = Some l
                        \<and> lock (heap q j) = Some l"
    and i2: "\<forall>n l. job_locks q n = Some l \<longrightarrow> name (locks q l) = n \<and> l < lock_count q"
    and i3: "\<forall>l. semaphore (locks q l) + length (holders A q l) \<le> 1"
    by (simp_all add: qinv_def)
  have c1: "\<forall>k \<in> set (A @ [j]). \<exists>n l. get_lock_name (heap ?q' k) = Some n
              \<and> job_locks ?q' n = Some l \<and> lock (heap ?q' k) = Some l"
  proof
    fix k assume k: "k \<in> set (A @ [j])"
    show "\<exists>n l. get_lock_name (heap ?q' k) = Some n
              \<and> job_locks ?q' n = Some l \<and> lock (heap ?q' k) = Some l"
    proof (cases "k = j")
      case True
      with n r show ?thesis by simp
    next
      case False
      with k have "k \<in> set A" by simp
      with i1 False show ?thesis by simp
    qed
  qed
  have c2: "\<forall>n l'. job_locks ?q' n = Some l' \<longrightarrow> name (locks ?q' l') = n \<and> l' < lock_count ?q'"
    using i2 by simp
  have c3: "\<forall>l'. semaphore (locks ?q' l') + length (holders (A @ [j]) ?q' l') \<le> 1"
  proof
    fix l'
    have hA: "holders A ?q' l' = holders A q l'"
      using holders_upd_other [OF j, of q "(heap q j)\<lparr>lock := Some l\<rparr>" l']
      by simp
    have hj: "holders [j] ?q' l' = (if l' = l then [j] else [])"
      by (auto simp: holders_def)
    show "semaphore (locks ?q' l') + length (holders (A @ [j]) ?q' l') \<le> 1"
    proof (cases "l' = l")
      case True
      from i3 have "semaphore (locks q l) + length (holders A q l) \<le> 1" by blast
      with pos have "length (holders A q l) = 0" and "semaphore (locks q l) = 1" by arith+
      with True hA hj show ?thesis by (simp add: holders_append)
    next
      case False
      from i3 have "semaphore (locks q l') + length (holders A q l') \<le> 1" by blast
      with False hA hj show ?thesis by (simp add: holders_append)
    qed
  qed
  have inv': "qinv (A @ [j]) ?q'"
    unfolding qinv_def using c1 c2 c3 by blast
  have fr: "lock_frame q ?q'"
    unfolding lock_frame_def
  proof
    fix i
    show "\<exists>lk. heap ?q' i = (heap q i)\<lparr>lock := lk\<rparr>"
    proof (cases "i = j")
      case True
      then show ?thesis by (intro exI [of _ "Some l"]) simp
    next
      case False
      then show ?thesis by (intro exI [of _ "lock (heap q i)"]) simp
    qed
  qed
  show ?thesis
  proof (intro exI conjI)
    show "set_lock j (Some l) q = (Return (), ?q')" by (rule e)
    show "qinv (A @ [j]) ?q'" by (rule inv')
    show "lock_frame q ?q'" by (rule fr)
  qed simp_all
qed

lemma set_lock_None:
  assumes inv: "qinv A q" and j: "j \<notin> set A"
  shows "\<exists>e q'. set_lock j None q = (Raise e, q') \<and> qinv A q' \<and> lock_frame q q'
           \<and> queue q' = queue q \<and> queue_event q' = queue_event q \<and> deque q' = deque q"
proof -
  let ?q' = "q\<lparr>heap := (heap q)(j := (heap q j)\<lparr>lock := None\<rparr>)\<rparr>"
  have e: "set_lock j None q
             = (Raise (AttributeError ''NoneType object has no attribute acquire''), ?q')"
    by (simp add: set_lock_def Let_def)
  from inv have i1: "\<forall>j \<in> set A. \<exists>n l. get_lock_name (heap q j) = Some n \<and> job_locks q n = Some l
                        \<and> lock (heap q j) = Some l"
    and i2: "\<forall>n l. job_locks q n = Some l \<longrightarrow> name (locks q l) = n \<and> l < lock_count q"
    and i3: "\<forall>l. semaphore (locks q l) + length (holders A q l) \<le> 1"
    by (simp_all add: qinv_def)
  have c1: "\<forall>k \<in> set A. \<exists>n l. get_lock_name (heap ?q' k) = Some n
              \<and> job_locks ?q' n = Some l \<and> lock (heap ?q' k) = Some l"
  proof
    fix k assume k: "k \<in> set A"
    with j have "k \<noteq> j" by auto
    with i1 k show "\<exists>n l. get_lock_name (heap ?q' k) = Some n
              \<and> job_locks ?q' n = Some l \<and> lock (heap ?q' k) = Some l"
      by simp
  qed
  have c2: "\<forall>n l'. job_locks ?q' n = Some l' \<longrightarrow> name (locks ?q' l') = n \<and> l' < lock_count ?q'"
    using i2 by simp
  have c3: "\<forall>l'. semaphore (locks ?q' l') + length (holders A ?q' l') \<le> 1"
  proof
    fix l'
    from i3 have "semaphore (locks q l') + length (holders A q l') \<le> 1" by blast
    with holders_upd_other [OF j, of q "(heap q j)\<lparr>lock := None\<rparr>" l']
    show "semaphore (locks ?q' l') + length (holders A ?q' l') \<le> 1" by simp
  qed
  have inv': "qinv A ?q'"
    unfolding qinv_def using c1 c2 c3 by blast
  have fr: "lock_frame q ?q'"
    unfolding lock_frame_def
  proof
    fix i
    show "\<exists>lk. heap ?q' i = (heap q i)\<lparr>lock := lk\<rparr>"
    proof (cases "i = j")
      case True
      then show ?thesis by (intro exI [of _ "None"]) simp
    next
      case False
      then show ?thesis by (intro exI [of _ "lock (heap q i)"]) simp
    qed
  qed
  show ?thesis
  proof (intro exI conjI)
    show "set_lock j None q
             = (Raise (AttributeError ''NoneType object has no attribute acquire''), ?q')"
      by (rule e)
    show "qinv A ?q'" by (rule inv')
    show "lock_frame q ?q'" by (rule fr)
  qed simp_all
qed

lemma scan_post_mono:
  "scan_post A js q1 out q' \<Longrightarrow> lock_frame q q1 \<Longrightarrow> queue q1 = queue q \<Longrightarrow>
   queue_event q1 = queue_event q \<Longrightarrow> deque q1 = deque q \<Longrightarrow>
   scan_post A (j # js) q out q'"
  unfolding scan_post_def
  by (auto intro: lock_frame_trans split: outcome.splits option.splits)

lemma scan_correct:
  "qinv A q \<Longrightarrow> set js \<inter> set A = {} \<Longrightarrow> scan js q = (out, q') \<Longrightarrow> scan_post A js q out q'"
proof (induction js arbitrary: q)
  case Nil
  then show ?case by (auto simp: scan_post_def)
next
  case (Cons j js)
  obtain lk q1 where g: "get_lock j q = (lk, q1)" by (cases "get_lock j q")
  note inv1 = get_lock_qinv [OF Cons.prems(1) g]
  note fr1 = get_lock_frame [OF g]
  from fr1 have lf1: "lock_frame q q1" by (simp add: lock_frame_heap_eq)
  from Cons.prems(2) have jA: "j \<notin> set A" and jsA: "set js \<inter> set A = {}" by auto
  show ?case
  proof (cases lk)
    case None
    from set_lock_None [OF inv1 jA] obtain e q2 where
      s: "set_lock j None q1 = (Raise e, q2)" and i2: "qinv A q2" and f2: "lock_frame q1 q2"
      and r2: "queue q2 = queue q1" "queue_event q2 = queue_event q1" "deque q2 = deque q1"
      by blast
    from Cons.prems(3) g None s have "out = Raise e" "q' = q2" by simp_all
    with i2 lock_frame_trans [OF lf1 f2] r2 fr1 show ?thesis
      by (simp add: scan_post_def)
  next
    case (Some l)
    have nm: "\<exists>n. get_lock_name (heap q j) = Some n \<and> job_locks q1 n = Some l"
    proof (cases "get_lock_name (heap q j)")
      case None
      with g Some show ?thesis by (simp add: get_lock_def)
    next
      case (Some n)
      from get_lock_Some [OF Some] g \<open>lk = Some l\<close> show ?thesis using Some by auto
    qed
    then obtain n where n: "get_lock_name (heap q j) = Some n" and r: "job_locks q1 n = Some l"
      by blast
    from n fr1 have n1: "get_lock_name (heap q1 j) = Some n" by simp
    show ?thesis
    proof (cases "locked (locks q1 l)")
      case True
      with Cons.prems(3) g Some have "scan js q1 = (out, q')" by simp
      from Cons.IH [OF inv1 jsA this] have "scan_post A js q1 out q'" .
      from scan_post_mono [OF this lf1] fr1 show ?thesis by simp
    next
      case False
      from set_lock_Some [OF inv1 jA n1 r False] obtain q2 where
        s: "set_lock j (Some l) q1 = (Return (), q2)" and i2: "qinv (A @ [j]) q2"
        and f2: "lock_frame q1 q2"
        and r2: "queue q2 = queue q1" "queue_event q2 = queue_event q1" "deque q2 = deque q1"
        by blast
      from Cons.prems(3) g Some False s have "out = Return (Some j)" "q' = q2" by simp_all
      with i2 lock_frame_trans [OF lf1 f2] r2 fr1 show ?thesis
        by (simp add: scan_post_def)
    qed
  qed
qed

lemma lock_frame_fields [simp]:
  "lock_frame q (q'\<lparr>queue := qs\<rparr>) = lock_frame q q'"
  "lock_frame q (q'\<lparr>queue_event := e\<rparr>) = lock_frame q q'"
  by (simp_all add: lock_frame_def)

lemma next_correct:
  assumes inv: "qinv A q" and dis: "set (queue q) \<inter> set A = {}"
    and nx: "JobsQueue_next q = (out, q')"
  shows "next_post A q out q'"
proof (cases "queue_event q")
  case False
  with nx have "out = Block" "q' = q" by (simp_all add: JobsQueue_next.simps)
  with inv show ?thesis by (simp add: next_post_def)
next
  case True
  obtain o1 q1 where sc: "scan (queue q) q = (o1, q1)" by (cases "scan (queue q) q")
  from scan_correct [OF inv dis sc] have sp: "scan_post A (queue q) q o1 q1" .
  then have fr: "lock_frame q q1" and qq: "queue q1 = queue q" and dq: "deque q1 = deque q"
    by (simp_all add: scan_post_def)
  show ?thesis
  proof (cases o1)
    case (Return r)
    show ?thesis
    proof (cases r)
      case None
      with Return sp have i1: "qinv A q1" by (simp add: scan_post_def)
      have "JobsQueue_next (q1\<lparr>queue_event := False\<rparr>) = (Block, q1\<lparr>queue_event := False\<rparr>)"
        by (simp add: JobsQueue_next.simps)
      with nx True sc Return None have "out = Block" "q' = q1\<lparr>queue_event := False\<rparr>"
        by (simp_all add: JobsQueue_next.simps [of q])
      with i1 fr qq dq show ?thesis by (simp add: next_post_def)
    next
      case (Some j)
      with Return sp have j: "j \<in> set (queue q)" and i1: "qinv (A @ [j]) q1"
        by (simp_all add: scan_post_def)
      from nx True sc Return Some have o: "out = Return j"
        and q': "q' = (if length (queue (q1\<lparr>queue := remove1 j (queue q1)\<rparr>)) = 0
                      then q1\<lparr>queue := remove1 j (queue q1), queue_event := False\<rparr>
                      else q1\<lparr>queue := remove1 j (queue q1)\<rparr>)"
        by (simp_all add: JobsQueue_next.simps [of q] Let_def)
      from q' i1 fr qq dq j o show ?thesis
        by (simp add: next_post_def split: if_splits)
    qed
  next
    case (Raise e)
    with nx True sc have "out = Raise e" "q' = q1"
      by (simp_all add: JobsQueue_next.simps [of q])
    with Raise sp show ?thesis by (simp add: next_post_def scan_post_def)
  next
    case Block
    with sp show ?thesis by (simp add: scan_post_def)
  qed
qed

lemma length_filter_remove1:
  "distinct A \<Longrightarrow> j \<in> set A \<Longrightarrow>
     length (filter P (remove1 j A)) + (if P j then 1 else 0) = length (filter P A)"
  by (induction A) auto

lemma filter_two:
  "j \<in> set A \<Longrightarrow> k \<in> set A \<Longrightarrow> j \<noteq> k \<Longrightarrow> P j \<Longrightarrow> P k \<Longrightarrow> 2 \<le> length (filter P A)"
proof (induction A)
  case Nil
  then show ?case by simp
next
  case (Cons a A)
  show ?case
  proof (cases "a = j")
    case True
    with Cons.prems have "k \<in> set A" by auto
    with Cons.prems(5) have "filter P A \<noteq> []" by (auto simp: filter_empty_conv)
    then have "1 \<le> length (filter P A)" by (cases "filter P A") auto
    with True Cons.prems(4) show ?thesis by simp
  next
    case False
    show ?thesis
    proof (cases "a = k")
      case True
      with Cons.prems False have "j \<in> set A" by auto
      with Cons.prems(4) have "filter P A \<noteq> []" by (auto simp: filter_empty_conv)
      then have "1 \<le> length (filter P A)" by (cases "filter P A") auto
      with True Cons.prems(5) show ?thesis by simp
    next
      case False
      with \<open>a \<noteq> j\<close> Cons.prems have "j \<in> set A" "k \<in> set A" by auto
      from Cons.IH [OF this Cons.prems(3,4,5)] show ?thesis by simp
    qed
  qed
qed

lemma release_lock_shape:
  assumes lk: "lock (heap q j) = Some l" and r: "release_lock j q = (out, q')"
  shows "q' = q
       \<or> (heap q' = heap q \<and> queue q' = queue q \<and> deque q' = deque q
          \<and> lock_count q' = lock_count q
          \<and> locks q' = (locks q)(l := (locks q l)\<lparr>jobs := remove1 j (jobs (locks q l)),
                                                 semaphore := semaphore (locks q l) + 1\<rparr>)
          \<and> (job_locks q' = job_locks q
              \<or> job_locks q' = (job_locks q)(name (locks q l) := None)))"
  using lk r
  by (auto simp: release_lock_def remove_job_def release_def get_jobs_def Let_def
      split: if_splits option.splits)

lemma release_lock_None:
  "lock (heap q j) = None \<Longrightarrow> release_lock j q = (Return (), q)"
  by (simp add: release_lock_def)

lemma qinv_remove1_same:
  assumes inv: "qinv A q" and d: "distinct A" and j: "j \<in> set A"
  shows "qinv (remove1 j A) q"
proof -
  from inv have i1: "\<forall>j \<in> set A. \<exists>n l. get_lock_name (heap q j) = Some n \<and> job_locks q n = Some l
                        \<and> lock (heap q j) = Some l"
    and i2: "\<forall>n l. job_locks q n = Some l \<longrightarrow> name (locks q l) = n \<and> l < lock_count q"
    and i3: "\<forall>l. semaphore (locks q l) + length (holders A q l) \<le> 1"
    by (simp_all add: qinv_def)
  have c1: "\<forall>k \<in> set (remove1 j A). \<exists>n l. get_lock_name (heap q k) = Some n
              \<and> job_locks q n = Some l \<and> lock (heap q k) = Some l"
    using i1 set_remove1_subset [of j A] by blast
  have c3: "\<forall>l. semaphore (locks q l) + length (holders (remove1 j A) q l) \<le> 1"
  proof
    fix l
    from length_filter_remove1 [OF d j, of "\<lambda>j. lock (heap q j) = Some l"]
    have "length (holders (remove1 j A) q l) \<le> length (holders A q l)"
      by (simp add: holders_def split: if_splits)
    moreover from i3 have "semaphore (locks q l) + length (holders A q l) \<le> 1" by blast
    ultimately show "semaphore (locks q l) + length (holders (remove1 j A) q l) \<le> 1" by arith
  qed
  from c1 i2 c3 show ?thesis unfolding qinv_def by blast
qed

lemma release_lock_qinv:
  assumes inv: "qinv A q" and d: "distinct A" and j: "j \<in> set A"
    and r: "release_lock j q = (out, q')"
  shows "qinv (remove1 j A) q' \<and> heap q' = heap q \<and> queue q' = queue q \<and> deque q' = deque q"
proof -
  from inv have i1: "\<forall>j \<in> set A. \<exists>n l. get_lock_name (heap q j) = Some n \<and> job_locks q n = Some l
                        \<and> lock (heap q j) = Some l"
    and i2: "\<forall>n l. job_locks q n = Some l \<longrightarrow> name (locks q l) = n \<and> l < lock_count q"
    and i3: "\<forall>l. semaphore (locks q l) + length (holders A q l) \<le> 1"
    by (simp_all add: qinv_def)
  from i1 j obtain n l where n: "get_lock_name (heap q j) = Some n"
    and rl: "job_locks q n = Some l" and lk: "lock (heap q j) = Some l"
    by blast
  from i2 rl have nm: "name (locks q l) = n" by blast
  from release_lock_shape [OF lk r]
  show ?thesis
  proof
    assume "q' = q"
    with qinv_remove1_same [OF inv d j] show ?thesis by simp
  next
    assume sh: "heap q' = heap q \<and> queue q' = queue q \<and> deque q' = deque q
          \<and> lock_count q' = lock_count q
          \<and> locks q' = (locks q)(l := (locks q l)\<lparr>jobs := remove1 j (jobs (locks q l)),
                                                 semaphore := semaphore (locks q l) + 1\<rparr>)
          \<and> (job_locks q' = job_locks q
              \<or> job_locks q' = (job_locks q)(name (locks q l) := None))"
    then have hp: "heap q' = heap q" and lc: "lock_count q' = lock_count q"
      and ls: "locks q' = (locks q)(l := (locks q l)\<lparr>jobs := remove1 j (jobs (locks q l)),
                                                 semaphore := semaphore (locks q l) + 1\<rparr>)"
      and jl: "job_locks q' = job_locks q \<or> job_locks q' = (job_locks q)(n := None)"
      by (simp_all add: nm)
    have others: "\<forall>k \<in> set (remove1 j A). lock (heap q k) \<noteq> Some l"
    proof
      fix k assume k: "k \<in> set (remove1 j A)"
      with d have kA: "k \<in> set A" and kj: "k \<noteq> j" by simp_all
      show "lock (heap q k) \<noteq> Some l"
      proof
        assume "lock (heap q k) = Some l"
        from filter_two [OF j kA _ lk this] kj
        have "2 \<le> length (holders A q l)" by (simp add: holders_def)
        moreover from i3 have "semaphore (locks q l) + length (holders A q l) \<le> 1" by blast
        ultimately show False by arith
      qed
    qed
    have c1: "\<forall>k \<in> set (remove1 j A). \<exists>n' l'. get_lock_name (heap q' k) = Some n'
              \<and> job_locks q' n' = Some l' \<and> lock (heap q' k) = Some l'"
    proof
      fix k assume k: "k \<in> set (remove1 j A)"
      with set_remove1_subset [of j A] have kA: "k \<in> set A" by blast
      with i1 obtain n' l' where k1: "get_lock_name (heap q k) = Some n'"
        "job_locks q n' = Some l'" "lock (heap q k) = Some l'"
        by blast
      from others k k1 have "l' \<noteq> l" by auto
      with rl k1 have "n' \<noteq> n" by auto
      with jl k1 have "job_locks q' n' = Some l'" by auto
      with k1 hp show "\<exists>n' l'. get_lock_name (heap q' k) = Some n'
              \<and> job_locks q' n' = Some l' \<and> lock (heap q' k) = Some l'"
        by simp
    qed
    have c2: "\<forall>n' l'. job_locks q' n' = Some l' \<longrightarrow> name (locks q' l') = n' \<and> l' < lock_count q'"
    proof (intro allI impI)
      fix n' l' assume a: "job_locks q' n' = Some l'"
      with jl have "job_locks q n' = Some l'" by (auto split: if_splits)
      with i2 have "name (locks q l') = n'" "l' < lock_count q" by auto
      then show "name (locks q' l') = n' \<and> l' < lock_count q'"
        by (auto simp: ls lc)
    qed
    have c3: "\<forall>l'. semaphore (locks q' l') + length (holders (remove1 j A) q' l') \<le> 1"
    proof
      fix l'
      have h: "holders (remove1 j A) q' l' = holders (remove1 j A) q l'"
        by (simp add: holders_def hp)
      from length_filter_remove1 [OF d j, of "\<lambda>j. lock (heap q j) = Some l'"]
      have len: "length (holders (remove1 j A) q l') + (if l' = l then 1 else 0)
                   = length (holders A q l')"
        using lk by (auto simp: holders_def split: if_splits)
      from i3 have b: "semaphore (locks q l') + length (holders A q l') \<le> 1" by blast
      show "semaphore (locks q' l') + length (holders (remove1 j A) q' l') \<le> 1"
      proof (cases "l' = l")
        case True
        then have sm: "semaphore (locks q' l') = semaphore (locks q l') + 1"
          by (simp add: ls)
        from len True have "length (holders (remove1 j A) q l') + 1 = length (holders A q l')"
          by (simp only: refl if_True)
        with b sm show ?thesis unfolding h by linarith
      next
        case False
        then have sm: "semaphore (locks q' l') = semaphore (locks q l')"
          by (simp add: ls)
        from len False have "length (holders (remove1 j A) q l') + 0 = length (holders A q l')"
          by (simp only: if_False)
        with b sm show ?thesis unfolding h by linarith
      qed
    qed
    from c1 c2 c3 have "qinv (remove1 j A) q'" unfolding qinv_def by blast
    with sh show ?thesis by simp
  qed
qed

lemma qinv_cong_heap:
  assumes "locks q' = locks q" and "job_locks q' = job_locks q"
    and "lock_count q' = lock_count q"
    and "\<forall>i. lock (heap q' i) = lock (heap q i)
              \<and> get_lock_name (heap q' i) = get_lock_name (heap q i)"
  shows "qinv A q' = qinv A q"
  by (simp add: qinv_def holders_def assms)

lemma qinv_perm:
  assumes "set A = set B" and "distinct A" and "distinct B" and "qinv A q"
  shows "qinv B q"
proof -
  have "\<And>l. length (holders B q l) = length (holders A q l)"
    by (simp add: holders_def distinct_length_filter assms)
  with assms(1,4) show ?thesis by (simp add: qinv_def)
qed

lemma sys_inv_init:
  assumes "\<forall>j. fresh_job (h j)"
  shows "sys_inv (init_system h)"
proof -
  from assms have "\<forall>j. state (h j) = WAITING" by (simp add: fresh_job_def)
  then show ?thesis
    by (simp add: sys_inv_def active_def init_system_def JobsQueue_init_def qinv_def
        holders_def JobSharedLock_init_def)
qed

lemma JobsQueue_add_fields:
  "heap (JobsQueue_add j q) = (heap q)(j := (heap q j)\<lparr>job_id := Some (count (deque q) + 1)\<rparr>)"
  "queue (JobsQueue_add j q) = queue q @ [j]"
  "locks (JobsQueue_add j q) = locks q"
  "job_locks (JobsQueue_add j q) = job_locks q"
  "lock_count (JobsQueue_add j q) = lock_count q"
  by (simp_all add: JobsQueue_add_def JobsDeque_add_def Let_def set_id_def)

lemma get_lock_name_upd [simp]:
  "get_lock_name (job\<lparr>job_id := i\<rparr>) = get_lock_name job"
  "get_lock_name (job\<lparr>state := s\<rparr>) = get_lock_name job"
  "get_lock_name (job\<lparr>result := r\<rparr>) = get_lock_name job"
  "get_lock_name (job\<lparr>time_finished := t\<rparr>) = get_lock_name job"
  "get_lock_name (job\<lparr>progress_percent := p\<rparr>) = get_lock_name job"
  "get_lock_name (job\<lparr>progress_description := d\<rparr>) = get_lock_name job"
  by (simp_all add: get_lock_name_def split: option.splits optval.splits)

lemma sys_inv_submit:
  assumes inv: "sys_inv s" and f: "job_id (heap (jq s) j) = None"
  shows "sys_inv (s\<lparr>jq := JobsQueue_add j (jq s)\<rparr>)"
proof -
  let ?q = "jq s"
  note e = JobsQueue_add_fields
  let ?q' = "JobsQueue_add j ?q"
  from inv have i1: "qinv (active s) ?q"
    and i2: "\<forall>j. state (heap ?q j) = RUNNING \<longleftrightarrow> j \<in> set (in_method s)"
    and i3: "set (queue ?q) \<inter> set (active s) = {}"
    and i4: "distinct (queue ?q)" "distinct (active s)"
    and i5: "\<forall>j. job_id (heap ?q j) = None \<longrightarrow> j \<notin> set (queue ?q) \<and> j \<notin> set (active s)"
    by (simp_all add: sys_inv_def)
  from i5 f have jq: "j \<notin> set (queue ?q)" and ja: "j \<notin> set (active s)" by auto
  have "qinv (active s) ?q' = qinv (active s) ?q"
    by (rule qinv_cong_heap) (simp_all add: e)
  with i1 have c1: "qinv (active s) ?q'" by simp
  have c2: "\<forall>k. state (heap ?q' k) = RUNNING \<longleftrightarrow> k \<in> set (in_method s)"
    using i2 by (simp add: e)
  have c3: "set (queue ?q') \<inter> set (active s) = {}"
    using i3 ja by (simp add: e)
  have c4: "distinct (queue ?q')" using i4 jq by (simp add: e)
  have c5: "\<forall>k. job_id (heap ?q' k) = None \<longrightarrow> k \<notin> set (queue ?q') \<and> k \<notin> set (active s)"
    using i5 by (auto simp: e)
  from c1 c2 c3 c4 i4(2) c5 show ?thesis
    by (simp add: sys_inv_def active_def)
qed

lemma sys_inv_sched:
  assumes inv: "sys_inv s" and nx: "JobsQueue_next (jq s) = (out, q')"
  shows "sys_inv (case out of
                    Return j \<Rightarrow> s\<lparr>jq := q', spawned := spawned s @ [j]\<rparr>
                  | Raise e \<Rightarrow> s\<lparr>jq := q', sched_alive := False\<rparr>
                  | Block \<Rightarrow> s\<lparr>jq := q'\<rparr>)"
proof -
  let ?q = "jq s"
  from inv have i1: "qinv (active s) ?q"
    and i2: "\<forall>j. state (heap ?q j) = RUNNING \<longleftrightarrow> j \<in> set (in_method s)"
    and i3: "set (queue ?q) \<inter> set (active s) = {}"
    and i4: "distinct (queue ?q)" "distinct (active s)"
    and i5: "\<forall>j. job_id (heap ?q j) = None \<longrightarrow> j \<notin> set (queue ?q) \<and> j \<notin> set (active s)"
    by (simp_all add: sys_inv_def)
  from next_correct [OF i1 i3 nx] have np: "next_post (active s) ?q out q'" .
  then have fr: "lock_frame ?q q'" by (simp add: next_post_def)
  note st = lock_frameD(1) [OF fr] and ji = lock_frameD(2) [OF fr]
  show ?thesis
  proof (cases out)
    case (Return j)
    with np have j: "j \<in> set (queue ?q)" and qi: "qinv (active s @ [j]) q'"
      and qq: "queue q' = remove1 j (queue ?q)"
      by (simp_all add: next_post_def)
    from j i3 have ja: "j \<notin> set (active s)" by auto
    let ?s' = "s\<lparr>jq := q', spawned := spawned s @ [j]\<rparr>"
    have act: "set (active ?s') = set (active s @ [j])" "distinct (active ?s')"
      using i4(2) ja by (auto simp: active_def)
    have d1: "distinct (active s @ [j])" using i4(2) ja by simp
    have c1: "qinv (active ?s') (jq ?s')"
      using qinv_perm [OF act(1) [symmetric] d1 act(2) qi] by simp
    have c2: "\<forall>k. state (heap (jq ?s') k) = RUNNING \<longleftrightarrow> k \<in> set (in_method ?s')"
      using i2 by (simp add: st)
    have c3: "set (queue (jq ?s')) \<inter> set (active ?s') = {}"
      using i3 i4(1) j by (auto simp: qq active_def)
    have c4: "distinct (queue (jq ?s'))" using i4(1) by (simp add: qq)
    have c5: "\<forall>k. job_id (heap (jq ?s') k) = None \<longrightarrow>
                k \<notin> set (queue (jq ?s')) \<and> k \<notin> set (active ?s')"
    proof (intro allI impI)
      fix k assume "job_id (heap (jq ?s') k) = None"
      then have kn: "job_id (heap ?q k) = None" by (simp add: ji)
      with i5 have "k \<notin> set (queue ?q)" "k \<notin> set (active s)" by auto
      with j show "k \<notin> set (queue (jq ?s')) \<and> k \<notin> set (active ?s')"
        by (auto simp: qq active_def dest: notin_set_remove1)
    qed
    from c1 c2 c3 c4 act(2) c5 Return show ?thesis by (simp add: sys_inv_def)
  next
    case (Raise e)
    with np have qi: "qinv (active s) q'" and qq: "queue q' = queue ?q"
      by (simp_all add: next_post_def)
    with i2 i3 i4 i5 Raise show ?thesis
      by (simp add: sys_inv_def active_def st ji)
  next
    case Block
    with np have qi: "qinv (active s) q'" and qq: "queue q' = queue ?q"
      by (simp_all add: next_post_def)
    with i2 i3 i4 i5 Block show ?thesis
      by (simp add: sys_inv_def active_def st ji)
  qed
qed

lemma set_state_Inr_fields:
  assumes "set_state job st now = Inr job'"
  shows "lock job' = lock job" and "get_lock_name job' = get_lock_name job"
    and "job_id job' = job_id job" and "State_members st = Some (state job')"
proof -
  from assms obtain s where s: "State_members st = Some s"
    and j: "job' = job\<lparr>state := s, time_finished := Some now\<rparr>"
    by (simp add: set_state_def split: if_splits option.splits)
  show "lock job' = lock job" by (simp add: j)
  show "get_lock_name job' = get_lock_name job" by (simp add: j)
  show "job_id job' = job_id job" by (simp add: j)
  show "State_members st = Some (state job')" by (simp add: j s)
qed

lemma State_members_names:
  "State_members ''RUNNING'' = Some RUNNING"
  "State_members ''SUCCESS'' = Some SUCCESS"
  "State_members ''FAILED'' = Some FAILED"
  by (simp_all add: State_members_def)

lemma set_state_from_running:
  assumes "state job = RUNNING"
  shows "\<exists>job'. set_state job ''FAILED'' now = Inr job'"
    and "\<exists>job'. set_state job ''SUCCESS'' now = Inr job'"
  using assms by (simp_all add: set_state_def State_members_names)

text \<open>The job object after the \<open>except\<close> or \<open>else\<close> clause of \<open>Job.run\<close>.\<close>

lemma leave_job:
  assumes "(case r of
              Inl e \<Rightarrow>
                (case set_state (heap q j) ''FAILED'' now of
                   Inl e' \<Rightarrow> (Inl e', q)
                 | Inr job \<Rightarrow> (Inl e, q\<lparr>heap := (heap q)(j := job)\<rparr>))
            | Inr v \<Rightarrow>
                (let q1 = q\<lparr>heap := (heap q)(j := set_result (heap q j) v)\<rparr>
                 in (case set_state (heap q1 j) ''SUCCESS'' now of
                       Inl e' \<Rightarrow> (Inl e', q1)
                     | Inr job \<Rightarrow> (Inr (), q1\<lparr>heap := (heap q1)(j := job)\<rparr>)))) = (p, q2)"
  shows "locks q2 = locks q \<and> job_locks q2 = job_locks q \<and> lock_count q2 = lock_count q
       \<and> queue q2 = queue q
       \<and> (\<forall>i. lock (heap q2 i) = lock (heap q i)
               \<and> get_lock_name (heap q2 i) = get_lock_name (heap q i)
               \<and> job_id (heap q2 i) = job_id (heap q i))
       \<and> (\<forall>i. i \<noteq> j \<longrightarrow> state (heap q2 i) = state (heap q i))
       \<and> state (heap q2 j) \<noteq> RUNNING"
proof (cases r)
  case (Inl e)
  show ?thesis
  proof (cases "set_state (heap q j) ''FAILED'' now")
    case (Inl e')
    with \<open>r = Inl e\<close> assms have q2: "q2 = q" by simp
    from set_state_from_running(1) [of "heap q j" now] Inl
    have "state (heap q j) \<noteq> RUNNING" by auto
    with q2 show ?thesis by simp
  next
    case (Inr job)
    with \<open>r = Inl e\<close> assms have q2: "q2 = q\<lparr>heap := (heap q)(j := job)\<rparr>" by simp
    from set_state_Inr_fields [OF Inr] State_members_names
    have "lock job = lock (heap q j)" "get_lock_name job = get_lock_name (heap q j)"
      "job_id job = job_id (heap q j)" "state job = FAILED"
      by simp_all
    with q2 show ?thesis by simp
  qed
next
  case (Inr v)
  let ?q1 = "q\<lparr>heap := (heap q)(j := set_result (heap q j) v)\<rparr>"
  have r1: "heap ?q1 j = (heap q j)\<lparr>result := Some v\<rparr>" by (simp add: set_result_def)
  show ?thesis
  proof (cases "set_state (heap ?q1 j) ''SUCCESS'' now")
    case (Inl e')
    with Inr assms have q2: "q2 = ?q1" by (simp add: Let_def)
    from set_state_from_running(2) [of "heap ?q1 j" now] Inl
    have "state (heap ?q1 j) \<noteq> RUNNING" by auto
    with q2 r1 show ?thesis by simp
  next
    case (Inr job)
    with \<open>r = Inr v\<close> assms have q2: "q2 = ?q1\<lparr>heap := (heap ?q1)(j := job)\<rparr>"
      by (simp add: Let_def)
    from set_state_Inr_fields [OF Inr] State_members_names r1
    have "lock job = lock (heap q j)" "get_lock_name job = get_lock_name (heap q j)"
      "job_id job = job_id (heap q j)" "state job = SUCCESS"
      by simp_all
    with q2 show ?thesis by simp
  qed
qed

lemma run_leave_split:
  assumes "run_leave j r now q = (out, q')"
  shows "\<exists>q2 out2. release_lock j q2 = (out2, q')
       \<and> locks q2 = locks q \<and> job_locks q2 = job_locks q \<and> lock_count q2 = lock_count q
       \<and> queue q2 = queue q
       \<and> (\<forall>i. lock (heap q2 i) = lock (heap q i)
               \<and> get_lock_name (heap q2 i) = get_lock_name (heap q i)
               \<and> job_id (heap q2 i) = job_id (heap q i))
       \<and> (\<forall>i. i \<noteq> j \<longrightarrow> state (heap q2 i) = state (heap q i))
       \<and> state (heap q2 j) \<noteq> RUNNING"
proof -
  obtain p q2 where m: "(case r of
              Inl e \<Rightarrow>
                (case set_state (heap q j) ''FAILED'' now of
                   Inl e' \<Rightarrow> (Inl e', q)
                 | Inr job \<Rightarrow> (Inl e, q\<lparr>heap := (heap q)(j := job)\<rparr>))
            | Inr v \<Rightarrow>
                (let q1 = q\<lparr>heap := (heap q)(j := set_result (heap q j) v)\<rparr>
                 in (case set_state (heap q1 j) ''SUCCESS'' now of
                       Inl e' \<Rightarrow> (Inl e', q1)
                     | Inr job \<Rightarrow> (Inr (), q1\<lparr>heap := (heap q1)(j := job)\<rparr>)))) = (p, q2)"
    by (rule prod.exhaust)
  obtain out2 q3 where rl: "release_lock j q2 = (out2, q3)" by (cases "release_lock j q2")
  from assms m rl have "q' = q3"
    unfolding run_leave_def by (simp split: outcome.splits sum.splits)
  with rl leave_job [OF m] show ?thesis by blast
qed

lemma sys_inv_leave:
  assumes inv: "sys_inv s" and j: "j \<in> set (active s)"
    and rl: "run_leave j r now (jq s) = (out, q')"
    and s': "spawned s' = remove1 j (spawned s)" "in_method s' = remove1 j (in_method s)"
      "jq s' = q'"
  shows "sys_inv s'"
proof -
  let ?q = "jq s"
  from inv have i1: "qinv (active s) ?q"
    and i2: "\<forall>j. state (heap ?q j) = RUNNING \<longleftrightarrow> j \<in> set (in_method s)"
    and i3: "set (queue ?q) \<inter> set (active s) = {}"
    and i4: "distinct (queue ?q)" "distinct (active s)"
    and i5: "\<forall>j. job_id (heap ?q j) = None \<longrightarrow> j \<notin> set (queue ?q) \<and> j \<notin> set (active s)"
    by (simp_all add: sys_inv_def)
  from run_leave_split [OF rl] obtain q2 out2 where
    r2: "release_lock j q2 = (out2, q')"
    and e: "locks q2 = locks ?q" "job_locks q2 = job_locks ?q" "lock_count q2 = lock_count ?q"
    and qq: "queue q2 = queue ?q"
    and h: "\<forall>i. lock (heap q2 i) = lock (heap ?q i)
               \<and> get_lock_name (heap q2 i) = get_lock_name (heap ?q i)
               \<and> job_id (heap q2 i) = job_id (heap ?q i)"
    and so: "\<forall>i. i \<noteq> j \<longrightarrow> state (heap q2 i) = state (heap ?q i)"
    and sj: "state (heap q2 j) \<noteq> RUNNING"
    by blast
  from h have h': "\<forall>i. lock (heap q2 i) = lock (heap ?q i)
               \<and> get_lock_name (heap q2 i) = get_lock_name (heap ?q i)"
    by blast
  from qinv_cong_heap [OF e h', of "active s"] i1 have "qinv (active s) q2" by simp
  from release_lock_qinv [OF this i4(2) j r2]
  have qi: "qinv (remove1 j (active s)) q'" and hp: "heap q' = heap q2"
    and q3: "queue q' = queue q2"
    by simp_all
  have act: "set (active s') = set (active s) - {j}" "distinct (active s')"
    using i4(2) s' by (auto simp: active_def)
  from i4(2) have ra: "set (remove1 j (active s)) = set (active s) - {j}"
    "distinct (remove1 j (active s))"
    by simp_all
  from act(1) ra(1) have "set (remove1 j (active s)) = set (active s')" by simp
  from qinv_perm [OF this ra(2) act(2) qi] have c1: "qinv (active s') (jq s')"
    by (simp add: s')
  have im: "set (in_method s') = set (in_method s) - {j}"
    using i4(2) s' by (auto simp: active_def)
  have c2: "\<forall>k. state (heap (jq s') k) = RUNNING \<longleftrightarrow> k \<in> set (in_method s')"
  proof
    fix k
    show "state (heap (jq s') k) = RUNNING \<longleftrightarrow> k \<in> set (in_method s')"
    proof (cases "k = j")
      case True
      with sj im show ?thesis by (simp add: s' hp)
    next
      case False
      with so i2 im show ?thesis by (simp add: s' hp)
    qed
  qed
  have c3: "set (queue (jq s')) \<inter> set (active s') = {}"
    using i3 act(1) by (auto simp: s' q3 qq)
  have c4: "distinct (queue (jq s'))" using i4(1) by (simp add: s' q3 qq)
  have c5: "\<forall>k. job_id (heap (jq s') k) = None \<longrightarrow>
                k \<notin> set (queue (jq s')) \<and> k \<notin> set (active s')"
    using i5 h act(1) by (simp add: s' hp q3 qq)
  from c1 c2 c3 c4 act(2) c5 show ?thesis by (simp add: sys_inv_def)
qed

lemma sys_inv_start:
  assumes inv: "sys_inv s" and j: "j \<in> set (spawned s)"
    and re: "run_enter j now (jq s) = (Inr u, q')"
  shows "sys_inv (s\<lparr>jq := q', spawned := remove1 j (spawned s), in_method := in_method s @ [j]\<rparr>)"
proof -
  let ?q = "jq s"
  let ?s' = "s\<lparr>jq := q', spawned := remove1 j (spawned s), in_method := in_method s @ [j]\<rparr>"
  from inv have i1: "qinv (active s) ?q"
    and i2: "\<forall>j. state (heap ?q j) = RUNNING \<longleftrightarrow> j \<in> set (in_method s)"
    and i3: "set (queue ?q) \<inter> set (active s) = {}"
    and i4: "distinct (queue ?q)" "distinct (active s)"
    and i5: "\<forall>j. job_id (heap ?q j) = None \<longrightarrow> j \<notin> set (queue ?q) \<and> j \<notin> set (active s)"
    by (simp_all add: sys_inv_def)
  from re obtain job where ss: "set_state (heap ?q j) ''RUNNING'' now = Inr job"
    and q': "q' = ?q\<lparr>heap := (heap ?q)(j := job)\<rparr>"
    by (auto simp: run_enter_def split: sum.splits)
  from set_state_Inr_fields [OF ss] State_members_names
  have jf: "lock job = lock (heap ?q j)" "get_lock_name job = get_lock_name (heap ?q j)"
    "job_id job = job_id (heap ?q j)" "state job = RUNNING"
    by simp_all
  have "qinv (active s) q' = qinv (active s) ?q"
    by (rule qinv_cong_heap) (simp_all add: q' jf)
  with i1 have qi: "qinv (active s) q'" by simp
  have act: "set (active ?s') = set (active s)" "distinct (active ?s')"
    using i4(2) j by (auto simp: active_def)
  from qinv_perm [OF act(1) [symmetric] i4(2) act(2) qi] have c1: "qinv (active ?s') (jq ?s')"
    by simp
  have c2: "\<forall>k. state (heap (jq ?s') k) = RUNNING \<longleftrightarrow> k \<in> set (in_method ?s')"
    using i2 jf by (simp add: q')
  have c3: "set (queue (jq ?s')) \<inter> set (active ?s') = {}"
    using i3 act(1) by (simp add: q')
  have c4: "distinct (queue (jq ?s'))" using i4(1) by (simp add: q')
  have c5: "\<forall>k. job_id (heap (jq ?s') k) = None \<longrightarrow>
                k \<notin> set (queue (jq ?s')) \<and> k \<notin> set (active ?s')"
    using i5 jf act(1) by (simp add: q')
  from c1 c2 c3 c4 act(2) c5 show ?thesis by (simp add: sys_inv_def)
qed

lemma run_enter_Inl: "run_enter j now q = (Inl e, q1) \<Longrightarrow> q1 = q"
  by (auto simp: run_enter_def split: sum.splits)

lemma sys_inv_progress:
  assumes inv: "sys_inv s"
  shows "sys_inv (s\<lparr>jq := (jq s)\<lparr>heap := (heap (jq s))(j := set_progress (heap (jq s) j) p d)\<rparr>\<rparr>)"
proof -
  let ?q = "jq s"
  let ?x = "set_progress (heap ?q j) p d"
  let ?q' = "?q\<lparr>heap := (heap ?q)(j := ?x)\<rparr>"
  have xf: "lock ?x = lock (heap ?q j)" "get_lock_name ?x = get_lock_name (heap ?q j)"
    "job_id ?x = job_id (heap ?q j)" "state ?x = state (heap ?q j)"
    by (simp_all add: set_progress_def Let_def split: option.splits)
  have "qinv (active s) ?q' = qinv (active s) ?q"
    by (rule qinv_cong_heap) (simp_all add: xf)
  with inv xf show ?thesis
    by (simp add: sys_inv_def active_def)
qed

lemma sys_inv_step:
  assumes "step s s'" and inv: "sys_inv s"
  shows "sys_inv s'"
  using assms(1)
proof cases
  case (submit j)
  with sys_inv_submit [OF inv] show ?thesis by simp
next
  case (sched_spawn j q')
  with sys_inv_sched [OF inv, of "Return j" q'] show ?thesis by simp
next
  case (sched_wait q')
  with sys_inv_sched [OF inv, of Block q'] show ?thesis by simp
next
  case (sched_crash e q')
  with sys_inv_sched [OF inv, of "Raise e" q'] show ?thesis by simp
next
  case (task_start j now u q')
  with sys_inv_start [OF inv] show ?thesis by simp
next
  case (task_start_failed j now e q1 now' out q')
  from run_enter_Inl [OF task_start_failed(3)] task_start_failed(4)
  have rl: "run_leave j (Inl e) now' (jq s) = (out, q')" by simp
  from inv have d: "distinct (active s)" by (simp add: sys_inv_def)
  from task_start_failed(2) d have a: "j \<in> set (active s)" and n: "j \<notin> set (in_method s)"
    by (auto simp: active_def)
  from n have "remove1 j (in_method s) = in_method s" by (simp add: remove1_idem)
  with sys_inv_leave [OF inv a rl, of s'] task_start_failed(1) show ?thesis by simp
next
  case (task_progress j p d)
  with sys_inv_progress [OF inv] show ?thesis by simp
next
  case (task_finish j r now out q')
  from inv have d: "distinct (active s)" by (simp add: sys_inv_def)
  from task_finish(2) d have a: "j \<in> set (active s)" and n: "j \<notin> set (spawned s)"
    by (auto simp: active_def)
  from n have "remove1 j (spawned s) = spawned s" by (simp add: remove1_idem)
  with sys_inv_leave [OF inv a task_finish(3), of s'] task_finish(1) show ?thesis by simp
qed

lemma reachable_sys_inv: "reachable s \<Longrightarrow> sys_inv s"
proof (induction rule: reachable.induct)
  case (reach_init h)
  then show ?case by (rule sys_inv_init)
next
  case (reach_step s s')
  from sys_inv_step [OF reach_step(2) reach_step.IH] show ?case .
qed

lemma mutual_exclusion:
  assumes r: "reachable s" and ne: "j \<noteq> k"
    and nj: "get_lock_name (heap (jq s) j) = Some n"
    and nk: "get_lock_name (heap (jq s) k) = Some n"
  shows "\<not> (state (heap (jq s) j) = RUNNING \<and> state (heap (jq s) k) = RUNNING)"
proof
  assume run: "state (heap (jq s) j) = RUNNING \<and> state (heap (jq s) k) = RUNNING"
  let ?q = "jq s"
  from reachable_sys_inv [OF r] have i1: "qinv (active s) ?q"
    and i2: "\<forall>j. state (heap ?q j) = RUNNING \<longleftrightarrow> j \<in> set (in_method s)"
    by (simp_all add: sys_inv_def)
  from run i2 have ja: "j \<in> set (active s)" and ka: "k \<in> set (active s)"
    by (simp_all add: active_def)
  from i1 have q1: "\<forall>j \<in> set (active s). \<exists>n l. get_lock_name (heap ?q j) = Some n
                        \<and> job_locks ?q n = Some l \<and> lock (heap ?q j) = Some l"
    and q3: "\<forall>l. semaphore (locks ?q l) + length (holders (active s) ?q l) \<le> 1"
    by (simp_all add: qinv_def)
  from q1 ja nj obtain l where lj: "job_locks ?q n = Some l" "lock (heap ?q j) = Some l"
    by force
  from q1 ka nk obtain l' where lk: "job_locks ?q n = Some l'" "lock (heap ?q k) = Some l'"
    by force
  from lj lk have "lock (heap ?q k) = Some l" by simp
  from filter_two [OF ja ka ne lj(2) this]
  have "2 \<le> length (holders (active s) ?q l)" by (simp add: holders_def)
  moreover from q3 have "semaphore (locks ?q l) + length (holders (active s) ?q l) \<le> 1"
    by blast
  ultimately show False by arith
qed

lemma job_without_lock_never_running:
  assumes r: "reachable s" and nj: "get_lock_name (heap (jq s) j) = None"
  shows "state (heap (jq s) j) \<noteq> RUNNING"
proof
  assume run: "state (heap (jq s) j) = RUNNING"
  let ?q = "jq s"
  from reachable_sys_inv [OF r] have i1: "qinv (active s) ?q"
    and i2: "\<forall>j. state (heap ?q j) = RUNNING \<longleftrightarrow> j \<in> set (in_method s)"
    by (simp_all add: sys_inv_def)
  from run i2 have "j \<in> set (active s)" by (simp add: active_def)
  with i1 nj show False by (auto simp: qinv_def)
qed

lemmas par_defs = par0_def par1_def par2_def par3_def par4_def par5_def par6_def
  init_system_def two_heap_def

lemma par_facts:
  "job_id (heap (jq par0) 0) = None"
  "job_id (heap (jq par1) 1) = None"
  "sched_alive par2" "fst (JobsQueue_next (jq par2)) = Return 0"
  "sched_alive par3" "fst (JobsQueue_next (jq par3)) = Return 1"
  "0 \<in> set (spawned par4)" "fst (run_enter 0 1 (jq par4)) = Inr ()"
  "1 \<in> set (spawned par5)" "fst (run_enter 1 2 (jq par5)) = Inr ()"
  "state (heap (jq par6) 0) = RUNNING" "state (heap (jq par6) 1) = RUNNING"
  "get_lock_name (heap (jq par6) 0) = Some ''alpha''"
  "get_lock_name (heap (jq par6) 1) = Some ''beta''"
  by (simp_all add: par_defs JobsQueue_next.simps job_defs lock_defs queue_defs ex_defs Let_def)

lemma pair_fst_snd: "fst p = a \<Longrightarrow> p = (a, snd p)"
  by (cases p) simp

lemma par_reachable: "reachable par6"
proof -
  have "\<forall>j. fresh_job (two_heap j)"
    by (simp add: fresh_job_def two_heap_def Job_init_def)
  then have r0: "reachable par0" unfolding par0_def by (rule reach_init)
  have "step par0 par1" unfolding par1_def by (rule step.submit) (rule par_facts)
  with r0 have r1: "reachable par1" by (rule reach_step)
  have "step par1 par2" unfolding par2_def by (rule step.submit) (rule par_facts)
  with r1 have r2: "reachable par2" by (rule reach_step)
  have "step par2 par3" unfolding par3_def
    by (rule step.sched_spawn) (rule par_facts pair_fst_snd)+
  with r2 have r3: "reachable par3" by (rule reach_step)
  have "step par3 par4" unfolding par4_def
    by (rule step.sched_spawn) (rule par_facts pair_fst_snd)+
  with r3 have r4: "reachable par4" by (rule reach_step)
  have "step par4 par5" unfolding par5_def
    by (rule step.task_start) (rule par_facts pair_fst_snd)+
  with r4 have r5: "reachable par5" by (rule reach_step)
  have "step par5 par6" unfolding par6_def
    by (rule step.task_start) (rule par_facts pair_fst_snd)+
  with r5 show ?thesis by (rule reach_step)
qed

lemma distinct_locks_run_together:
  "reachable par6
   \<and> state (heap (jq par6) 0) = RUNNING \<and> state (heap (jq par6) 1) = RUNNING
   \<and> get_lock_name (heap (jq par6) 0) = Some ''alpha''
   \<and> get_lock_name (heap (jq par6) 1) = Some ''beta''"
  by (intro conjI) (rule par_reachable par_facts)+

text \<open>Two jobs without a lock name are submitted and the scheduler takes its step: the
  selection raises on the first job, which ends the scheduler loop, and both jobs stay
  queued.\<close>

lemmas pl_defs = pl0_def pl1_def pl2_def pl3_def init_system_def

lemma pl_facts:
  "job_id (heap (jq pl0) 0) = None"
  "job_id (heap (jq pl1) 1) = None"
  "sched_alive pl2"
  "fst (JobsQueue_next (jq pl2))
     = Raise (AttributeError ''NoneType object has no attribute acquire'')"
  "\<not> sched_alive pl3"
  "queue (jq pl3) = [0, 1]"
  "state (heap (jq pl3) 0) = WAITING" "state (heap (jq pl3) 1) = WAITING"
  "get_lock_name (heap (jq pl3) 0) = None" "get_lock_name (heap (jq pl3) 1) = None"
  "spawned pl3 = []" "in_method pl3 = []"
  by (simp_all add: pl_defs plain_heap_def JobsQueue_next.simps job_defs lock_defs queue_defs
      ex_defs Let_def)

lemma pl_reachable: "reachable pl3"
proof -
  have "\<forall>j. fresh_job (plain_heap j)"
    by (simp add: fresh_job_def plain_heap_def new_job_def Job_init_def)
  then have r0: "reachable pl0" unfolding pl0_def by (rule reach_init)
  have "step pl0 pl1" unfolding pl1_def by (rule step.submit) (rule pl_facts)
  with r0 have r1: "reachable pl1" by (rule reach_step)
  have "step pl1 pl2" unfolding pl2_def by (rule step.submit) (rule pl_facts)
  with r1 have r2: "reachable pl2" by (rule reach_step)
  have "step pl2 pl3" unfolding pl3_def
    by (rule step.sched_crash) (rule pl_facts pair_fst_snd)+
  with r2 show ?thesis by (rule reach_step)
qed

text \<open>Claim C2 says that jobs whose computed lock names are equal are never Running
  together, and that jobs with no lock name or with distinct lock names are not subject
  to this exclusion. For equal names the exclusion holds in every reachable state
  (\<open>mutual_exclusion\<close>), and two jobs with distinct names are Running together in a
  reachable state (\<open>distinct_locks_run_together\<close>). For jobs with no lock name the code
  diverges: in every reachable state of the interleaved system a job with no lock name is
  not Running, because the selection step calls \<open>set_lock(None)\<close> on it and raises. With
  two such jobs submitted, the scheduler's step raises the attribute error and ends the
  scheduler loop; no task was spawned, and both jobs are still queued in state Waiting.\<close>

theorem jobs_without_lock_never_run:
  "(reachable s \<and> get_lock_name (heap (jq s) j) = None
      \<longrightarrow> state (heap (jq s) j) \<noteq> RUNNING)
   \<and> reachable pl3
   \<and> fst (JobsQueue_next (jq pl2))
       = Raise (AttributeError ''NoneType object has no attribute acquire'')
   \<and> \<not> sched_alive pl3 \<and> queue (jq pl3) = [0, 1]
   \<and> spawned pl3 = [] \<and> in_method pl3 = []
   \<and> get_lock_name (heap (jq pl3) 0) = None \<and> get_lock_name (heap (jq pl3) 1) = None
   \<and> state (heap (jq pl3) 0) = WAITING \<and> state (heap (jq pl3) 1) = WAITING"
proof -
  have g: "reachable s \<and> get_lock_name (heap (jq s) j) = None
      \<longrightarrow> state (heap (jq s) j) \<noteq> RUNNING"
    by (auto dest: job_without_lock_never_running)
  show ?thesis
    by (rule conjI [OF g conjI [OF pl_reachable conjI [OF pl_facts(4) conjI [OF pl_facts(5)
          conjI [OF pl_facts(6) conjI [OF pl_facts(11) conjI [OF pl_facts(12)
          conjI [OF pl_facts(9) conjI [OF pl_facts(10) conjI [OF pl_facts(7) pl_facts(8)]]]]]]]]]])
qed

theorem jobs_without_lock_never_run_witness:
  "reachable pl3 \<and> get_lock_name (heap (jq pl3) 1) = None
   \<and> state (heap (jq pl3) 1) \<noteq> RUNNING"
proof -
  note t = jobs_without_lock_never_run [where s = pl3 and j = 1]
  note p = t [THEN conjunct1, THEN mp, OF conjI [OF pl_reachable pl_facts(10)]]
  show ?thesis
    by (rule conjI [OF pl_reachable conjI [OF pl_facts(10) p]])
qed

section \<open>The registry and the job lists of the locks\<close>

text \<open>In every reachable state a name has a registry entry exactly when some lock object
  of that name has a job in its list. The list is what \<open>get_lock\<close> appends to, once for
  every look at a job, and what \<open>release_lock\<close> removes one occurrence from.\<close>

lemma rinv_fields [simp]:
  "rinv (q\<lparr>queue := qs\<rparr>) = rinv q"
  "rinv (q\<lparr>queue_event := e\<rparr>) = rinv q"
  "rinv (q\<lparr>deque := d\<rparr>) = rinv q"
  "rinv (q\<lparr>heap := h\<rparr>) = rinv q"
  by (simp_all add: rinv_def)

lemma rinv_init: "rinv (JobsQueue_init h)"
  by (simp add: rinv_def JobsQueue_init_def JobSharedLock_init_def)

lemma get_lock_rinv:
  assumes inv: "rinv q" and g: "get_lock j q = (lk, q')"
  shows "rinv q'"
proof (cases "get_lock_name (heap q j)")
  case None
  with g inv show ?thesis by (simp add: get_lock_def)
next
  case (Some n)
  from inv have r1: "\<forall>n l. job_locks q n = Some l \<longrightarrow>
        name (locks q l) = n \<and> l < lock_count q \<and> jobs (locks q l) \<noteq> []"
    and r2: "\<forall>l. jobs (locks q l) \<noteq> [] \<longrightarrow> job_locks q (name (locks q l)) = Some l"
    by (simp_all add: rinv_def)
  show ?thesis
  proof (cases "job_locks q n")
    case (Some l)
    with g \<open>get_lock_name (heap q j) = Some n\<close>
    have q': "q' = q\<lparr>locks := (locks q)(l := add_job (locks q l) j)\<rparr>"
      by (auto simp: get_lock_def)
    from r1 Some have nl: "name (locks q l) = n" by blast
    have c1: "\<forall>n' l'. job_locks q' n' = Some l' \<longrightarrow>
        name (locks q' l') = n' \<and> l' < lock_count q' \<and> jobs (locks q' l') \<noteq> []"
      using r1 by (auto simp: q' add_job_def)
    have c2: "\<forall>l'. jobs (locks q' l') \<noteq> [] \<longrightarrow> job_locks q' (name (locks q' l')) = Some l'"
      using r2 Some nl by (auto simp: q' add_job_def)
    from c1 c2 show ?thesis unfolding rinv_def by blast
  next
    case None
    with g \<open>get_lock_name (heap q j) = Some n\<close>
    have q': "q' = q\<lparr>locks := (locks q)(lock_count q := add_job (JobSharedLock_init n) j),
                      lock_count := lock_count q + 1,
                      job_locks := (job_locks q)(n \<mapsto> lock_count q)\<rparr>"
      by (auto simp: get_lock_def)
    have c1: "\<forall>n' l'. job_locks q' n' = Some l' \<longrightarrow>
        name (locks q' l') = n' \<and> l' < lock_count q' \<and> jobs (locks q' l') \<noteq> []"
    proof (intro allI impI)
      fix n' l' assume a: "job_locks q' n' = Some l'"
      show "name (locks q' l') = n' \<and> l' < lock_count q' \<and> jobs (locks q' l') \<noteq> []"
      proof (cases "n' = n")
        case True
        with a show ?thesis by (simp add: q' add_job_def JobSharedLock_init_def)
      next
        case False
        with a have b: "job_locks q n' = Some l'" by (simp add: q')
        with r1 have "name (locks q l') = n'" "l' < lock_count q" "jobs (locks q l') \<noteq> []"
          by auto
        then show ?thesis by (simp add: q')
      qed
    qed
    have c2: "\<forall>l'. jobs (locks q' l') \<noteq> [] \<longrightarrow> job_locks q' (name (locks q' l')) = Some l'"
    proof (intro allI impI)
      fix l' assume a: "jobs (locks q' l') \<noteq> []"
      show "job_locks q' (name (locks q' l')) = Some l'"
      proof (cases "l' = lock_count q")
        case True
        then show ?thesis by (simp add: q' add_job_def JobSharedLock_init_def)
      next
        case False
        with a have "jobs (locks q l') \<noteq> []" by (simp add: q')
        with r2 have b: "job_locks q (name (locks q l')) = Some l'" by blast
        with None have "name (locks q l') \<noteq> n" by auto
        with b False show ?thesis by (simp add: q')
      qed
    qed
    from c1 c2 show ?thesis unfolding rinv_def by blast
  qed
qed

lemma set_lock_rinv:
  assumes inv: "rinv q" and s: "set_lock j lk q = (out, q')"
  shows "rinv q'"
proof (cases lk)
  case None
  with s inv show ?thesis by (auto simp: set_lock_def Let_def)
next
  case (Some l)
  show ?thesis
  proof (cases "acquire (locks q l)")
    case None
    with s Some inv show ?thesis by (auto simp: set_lock_def Let_def)
  next
    case (Some lo)
    then have lo: "lo = (locks q l)\<lparr>semaphore := semaphore (locks q l) - 1\<rparr>"
      by (auto simp: acquire_def split: if_splits)
    from s \<open>lk = Some l\<close> Some
    have q': "q' = q\<lparr>heap := (heap q)(j := (heap q j)\<lparr>lock := Some l\<rparr>),
                     locks := (locks q)(l := lo)\<rparr>"
      by (auto simp: set_lock_def Let_def)
    from inv show ?thesis by (auto simp: rinv_def q' lo)
  qed
qed

lemma scan_rinv: "rinv q \<Longrightarrow> scan js q = (out, q') \<Longrightarrow> rinv q'"
proof (induction js arbitrary: q)
  case Nil
  then show ?case by auto
next
  case (Cons j js)
  obtain lk q1 where g: "get_lock j q = (lk, q1)" by (cases "get_lock j q")
  note i1 = get_lock_rinv [OF Cons.prems(1) g]
  show ?case
  proof (cases "case lk of None \<Rightarrow> True | Some l \<Rightarrow> \<not> locked (locks q1 l)")
    case True
    obtain o2 q2 where s: "set_lock j lk q1 = (o2, q2)" by (cases "set_lock j lk q1")
    from Cons.prems(2) g True s have "q' = q2" by (auto split: outcome.splits)
    with set_lock_rinv [OF i1 s] show ?thesis by simp
  next
    case False
    with Cons.prems(2) g have "scan js q1 = (out, q')" by simp
    from Cons.IH [OF i1 this] show ?thesis .
  qed
qed

lemma next_rinv:
  assumes inv: "rinv q" and nx: "JobsQueue_next q = (out, q')"
  shows "rinv q'"
proof (cases "queue_event q")
  case False
  with nx inv show ?thesis by (simp add: JobsQueue_next.simps)
next
  case True
  obtain o1 q1 where sc: "scan (queue q) q = (o1, q1)" by (cases "scan (queue q) q")
  note i1 = scan_rinv [OF inv sc]
  have b: "JobsQueue_next (q1\<lparr>queue_event := False\<rparr>) = (Block, q1\<lparr>queue_event := False\<rparr>)"
    by (simp add: JobsQueue_next.simps)
  from nx True sc b have
    "locks q' = locks q1 \<and> job_locks q' = job_locks q1 \<and> lock_count q' = lock_count q1"
    by (auto simp: JobsQueue_next.simps [of q] Let_def
        split: outcome.splits option.splits if_splits)
  with i1 show ?thesis by (simp add: rinv_def)
qed

lemma release_lock_rinv:
  assumes inv: "rinv q" and r: "release_lock j q = (out, q')"
  shows "rinv q'"
proof (cases "lock (heap q j)")
  case None
  with r inv show ?thesis by (simp add: release_lock_def)
next
  case (Some l)
  from inv have r1: "\<forall>n l. job_locks q n = Some l \<longrightarrow>
        name (locks q l) = n \<and> l < lock_count q \<and> jobs (locks q l) \<noteq> []"
    and r2: "\<forall>l. jobs (locks q l) \<noteq> [] \<longrightarrow> job_locks q (name (locks q l)) = Some l"
    by (simp_all add: rinv_def)
  show ?thesis
  proof (cases "j \<in> set (jobs (locks q l))")
    case False
    with r Some have "q' = q" by (simp add: release_lock_def remove_job_def)
    with inv show ?thesis by simp
  next
    case True
    then have ne: "jobs (locks q l) \<noteq> []" by auto
    with r2 have reg: "job_locks q (name (locks q l)) = Some l" by blast
    let ?lo = "(locks q l)\<lparr>jobs := remove1 j (jobs (locks q l)),
                           semaphore := semaphore (locks q l) + 1\<rparr>"
    let ?q1 = "q\<lparr>locks := (locks q)(l := ?lo)\<rparr>"
    show ?thesis
    proof (cases "remove1 j (jobs (locks q l)) = []")
      case True
      with r Some \<open>j \<in> set (jobs (locks q l))\<close> reg
      have q': "q' = ?q1\<lparr>job_locks := (job_locks q)(name (locks q l) := None),
                          queue_event := True\<rparr>"
        by (simp add: release_lock_def remove_job_def release_def get_jobs_def Let_def)
      have c1: "\<forall>n' l'. job_locks q' n' = Some l' \<longrightarrow>
          name (locks q' l') = n' \<and> l' < lock_count q' \<and> jobs (locks q' l') \<noteq> []"
      proof (intro allI impI)
        fix n' l' assume a: "job_locks q' n' = Some l'"
        then have n': "n' \<noteq> name (locks q l)" and b: "job_locks q n' = Some l'"
          by (auto simp: q' split: if_splits)
        from r1 b have f: "name (locks q l') = n'" "l' < lock_count q" "jobs (locks q l') \<noteq> []"
          by auto
        with n' have "l' \<noteq> l" by auto
        with f show "name (locks q' l') = n' \<and> l' < lock_count q' \<and> jobs (locks q' l') \<noteq> []"
          by (simp add: q')
      qed
      have c2: "\<forall>l'. jobs (locks q' l') \<noteq> [] \<longrightarrow> job_locks q' (name (locks q' l')) = Some l'"
      proof (intro allI impI)
        fix l' assume a: "jobs (locks q' l') \<noteq> []"
        with True have ll: "l' \<noteq> l" by (auto simp: q')
        with a have "jobs (locks q l') \<noteq> []" by (simp add: q')
        with r2 have b: "job_locks q (name (locks q l')) = Some l'" by blast
        with reg ll have "name (locks q l') \<noteq> name (locks q l)" by auto
        with b ll show "job_locks q' (name (locks q' l')) = Some l'" by (simp add: q')
      qed
      from c1 c2 show ?thesis unfolding rinv_def by blast
    next
      case False
      with r Some \<open>j \<in> set (jobs (locks q l))\<close>
      have q': "q' = ?q1\<lparr>queue_event := True\<rparr>"
        by (simp add: release_lock_def remove_job_def release_def get_jobs_def Let_def)
      have c1: "\<forall>n' l'. job_locks q' n' = Some l' \<longrightarrow>
          name (locks q' l') = n' \<and> l' < lock_count q' \<and> jobs (locks q' l') \<noteq> []"
        using r1 False by (auto simp: q')
      have c2: "\<forall>l'. jobs (locks q' l') \<noteq> [] \<longrightarrow> job_locks q' (name (locks q' l')) = Some l'"
        using r2 reg by (auto simp: q')
      from c1 c2 show ?thesis unfolding rinv_def by blast
    qed
  qed
qed

lemma rinv_cong:
  "locks q' = locks q \<Longrightarrow> job_locks q' = job_locks q \<Longrightarrow> lock_count q' = lock_count q \<Longrightarrow>
   rinv q' = rinv q"
  by (simp add: rinv_def)

lemma run_leave_rinv:
  assumes inv: "rinv q" and rl: "run_leave j r now q = (out, q')"
  shows "rinv q'"
proof -
  from run_leave_split [OF rl] obtain q2 out2 where
    r2: "release_lock j q2 = (out2, q')"
    and e: "locks q2 = locks q" "job_locks q2 = job_locks q" "lock_count q2 = lock_count q"
    by blast
  from rinv_cong [OF e] inv have "rinv q2" by simp
  from release_lock_rinv [OF this r2] show ?thesis .
qed

lemma run_enter_rinv:
  assumes inv: "rinv q" and re: "run_enter j now q = (out, q')"
  shows "rinv q'"
  using assms by (auto simp: run_enter_def split: sum.splits)

lemma step_rinv:
  assumes "step s s'" and inv: "rinv (jq s)"
  shows "rinv (jq s')"
  using assms(1)
proof cases
  case (submit j)
  have "rinv (JobsQueue_add j (jq s)) = rinv (jq s)"
    by (rule rinv_cong) (simp_all add: JobsQueue_add_fields)
  with inv submit show ?thesis by simp
next
  case (sched_spawn j q')
  with next_rinv [OF inv sched_spawn(3)] show ?thesis by simp
next
  case (sched_wait q')
  with next_rinv [OF inv sched_wait(3)] show ?thesis by simp
next
  case (sched_crash e q')
  with next_rinv [OF inv sched_crash(3)] show ?thesis by simp
next
  case (task_start j now u q')
  with run_enter_rinv [OF inv task_start(3)] show ?thesis by simp
next
  case (task_start_failed j now e q1 now' out q')
  from run_enter_rinv [OF inv task_start_failed(3)] have "rinv q1" .
  from run_leave_rinv [OF this task_start_failed(4)] task_start_failed(1)
  show ?thesis by simp
next
  case (task_progress j p d)
  with inv show ?thesis by simp
next
  case (task_finish j r now out q')
  with run_leave_rinv [OF inv task_finish(3)] show ?thesis by simp
qed

lemma reachable_rinv: "reachable s \<Longrightarrow> rinv (jq s)"
proof (induction rule: reachable.induct)
  case (reach_init h)
  show ?case by (simp add: init_system_def rinv_init)
next
  case (reach_step s s')
  from step_rinv [OF reach_step(2) reach_step.IH] show ?case .
qed

lemma registry_entry_iff_listed:
  assumes "reachable s"
  shows "(\<exists>l. job_locks (jq s) n = Some l)
         \<longleftrightarrow> (\<exists>l. name (locks (jq s) l) = n \<and> jobs (locks (jq s) l) \<noteq> [])"
proof
  from reachable_rinv [OF assms] have
    r1: "\<forall>n l. job_locks (jq s) n = Some l \<longrightarrow>
        name (locks (jq s) l) = n \<and> l < lock_count (jq s) \<and> jobs (locks (jq s) l) \<noteq> []"
    and r2: "\<forall>l. jobs (locks (jq s) l) \<noteq> [] \<longrightarrow>
        job_locks (jq s) (name (locks (jq s) l)) = Some l"
    by (simp_all add: rinv_def)
  {
    assume "\<exists>l. job_locks (jq s) n = Some l"
    with r1 show "\<exists>l. name (locks (jq s) l) = n \<and> jobs (locks (jq s) l) \<noteq> []" by blast
  next
    assume "\<exists>l. name (locks (jq s) l) = n \<and> jobs (locks (jq s) l) \<noteq> []"
    with r2 show "\<exists>l. job_locks (jq s) n = Some l" by blast
  }
qed

section \<open>The selection step in general\<close>

text \<open>With the event set, \<open>next\<close> passes over the jobs that are not eligible, registering
  each with its lock, and stops at the first eligible job. If that job has a lock name,
  \<open>next\<close> returns it, with its lock taken and the job out of the queue, and the event is
  cleared exactly when the queue has become empty; if it has none, \<open>next\<close> raises; and if
  no queued job is eligible, the event is cleared and \<open>next\<close> suspends.\<close>

lemma scan_skip:
  assumes "\<not> eligible q j"
  shows "\<exists>l q1. get_lock j q = (Some l, q1) \<and> locked (locks q1 l)
           \<and> heap q1 = heap q \<and> job_locks q1 = job_locks q \<and> queue q1 = queue q
           \<and> queue_event q1 = queue_event q \<and> deque q1 = deque q
           \<and> (\<forall>l'. semaphore (locks q1 l') = semaphore (locks q l'))"
proof -
  from assms obtain n l where n: "get_lock_name (heap q j) = Some n"
    and r: "job_locks q n = Some l" and lk: "locked (locks q l)"
    by (auto simp: eligible_def split: option.splits)
  let ?q1 = "q\<lparr>locks := (locks q)(l := add_job (locks q l) j)\<rparr>"
  from n r have g: "get_lock j q = (Some l, ?q1)" by (simp add: get_lock_def)
  from lk have "locked (locks ?q1 l)" by (simp add: locked_def add_job_def)
  moreover have "\<forall>l'. semaphore (locks ?q1 l') = semaphore (locks q l')"
    by (simp add: add_job_def)
  ultimately show ?thesis using g by (intro exI [of _ l] exI [of _ ?q1]) simp
qed

lemma eligible_cong:
  "heap q1 = heap q \<Longrightarrow> job_locks q1 = job_locks q \<Longrightarrow>
   \<forall>l. semaphore (locks q1 l) = semaphore (locks q l) \<Longrightarrow> eligible q1 k = eligible q k"
  by (simp add: eligible_def locked_def split: option.splits)

lemma scan_none_eligible:
  "\<forall>k \<in> set js. \<not> eligible q k \<Longrightarrow>
   \<exists>q'. scan js q = (Return None, q') \<and> heap q' = heap q \<and> job_locks q' = job_locks q
         \<and> queue q' = queue q \<and> queue_event q' = queue_event q \<and> deque q' = deque q
         \<and> (\<forall>l. semaphore (locks q' l) = semaphore (locks q l))"
proof (induction js arbitrary: q)
  case Nil
  then show ?case by simp
next
  case (Cons j js)
  from Cons.prems have nj: "\<not> eligible q j" by simp
  from scan_skip [OF nj] obtain l q1 where g: "get_lock j q = (Some l, q1)"
    and lk: "locked (locks q1 l)"
    and f: "heap q1 = heap q" "job_locks q1 = job_locks q" "queue q1 = queue q"
      "queue_event q1 = queue_event q" "deque q1 = deque q"
    and sm: "\<forall>l'. semaphore (locks q1 l') = semaphore (locks q l')"
    by blast
  from Cons.prems eligible_cong [OF f(1,2) sm] have "\<forall>k \<in> set js. \<not> eligible q1 k" by simp
  from Cons.IH [OF this] obtain q' where s: "scan js q1 = (Return None, q')"
    and f': "heap q' = heap q1" "job_locks q' = job_locks q1" "queue q' = queue q1"
      "queue_event q' = queue_event q1" "deque q' = deque q1"
    and sm': "\<forall>l. semaphore (locks q' l) = semaphore (locks q1 l)"
    by blast
  from g lk s have "scan (j # js) q = (Return None, q')" by simp
  with f f' sm sm' show ?case by simp
qed

lemma scan_first_eligible:
  assumes pre: "\<forall>k \<in> set pre. \<not> eligible q k" and el: "eligible q j"
  shows "(get_lock_name (heap q j) = None \<longrightarrow>
            (\<exists>e q'. scan (pre @ j # post) q = (Raise e, q')))
       \<and> (\<forall>n. get_lock_name (heap q j) = Some n \<longrightarrow>
            (\<exists>l q'. scan (pre @ j # post) q = (Return (Some j), q')
               \<and> job_locks q' n = Some l \<and> lock (heap q' j) = Some l
               \<and> semaphore (locks q' l)
                   = (case job_locks q n of None \<Rightarrow> 0 | Some l0 \<Rightarrow> semaphore (locks q l0) - 1)
               \<and> queue q' = queue q \<and> queue_event q' = queue_event q))"
  using pre el
proof (induction pre arbitrary: q)
  case Nil
  show ?case
  proof (cases "get_lock_name (heap q j)")
    case None
    then show ?thesis by (simp add: get_lock_def set_lock_def Let_def)
  next
    case (Some n)
    show ?thesis
    proof (cases "job_locks q n")
      case None
      with Some show ?thesis
        by (simp add: get_lock_def set_lock_def Let_def locked_def acquire_def add_job_def
            JobSharedLock_init_def)
    next
      case (Some l)
      with Nil.prems(2) \<open>get_lock_name (heap q j) = Some n\<close>
      have "\<not> locked (locks q l)" by (simp add: eligible_def)
      with Some \<open>get_lock_name (heap q j) = Some n\<close> show ?thesis
        by (simp add: get_lock_def set_lock_def Let_def locked_def acquire_def add_job_def)
    qed
  qed
next
  case (Cons k pre)
  from Cons.prems have nk: "\<not> eligible q k" by simp
  from scan_skip [OF nk] obtain l q1 where g: "get_lock k q = (Some l, q1)"
    and lk: "locked (locks q1 l)"
    and f: "heap q1 = heap q" "job_locks q1 = job_locks q" "queue q1 = queue q"
      "queue_event q1 = queue_event q" "deque q1 = deque q"
    and sm: "\<forall>l'. semaphore (locks q1 l') = semaphore (locks q l')"
    by blast
  note ec = eligible_cong [OF f(1,2) sm]
  from Cons.prems ec have p1: "\<forall>k \<in> set pre. \<not> eligible q1 k" and e1: "eligible q1 j"
    by simp_all
  from g lk have sc: "scan ((k # pre) @ j # post) q = scan (pre @ j # post) q1" by simp
  have cs: "\<And>n. (case job_locks q1 n of None \<Rightarrow> 0 | Some l0 \<Rightarrow> semaphore (locks q1 l0) - 1)
               = (case job_locks q n of None \<Rightarrow> 0 | Some l0 \<Rightarrow> semaphore (locks q l0) - 1)"
    by (simp add: f sm split: option.splits)
  from Cons.IH [OF p1 e1] show ?case
    unfolding sc cs by (simp add: f)
qed

lemma next_selects:
  assumes ev: "queue_event q" and qu: "queue q = pre @ j # post"
    and pre: "\<forall>k \<in> set pre. \<not> eligible q k" and el: "eligible q j"
    and n: "get_lock_name (heap q j) = Some n"
  shows "\<exists>l q'. JobsQueue_next q = (Return j, q')
           \<and> job_locks q' n = Some l \<and> lock (heap q' j) = Some l
           \<and> semaphore (locks q' l)
               = (case job_locks q n of None \<Rightarrow> 0 | Some l0 \<Rightarrow> semaphore (locks q l0) - 1)
           \<and> queue q' = pre @ post \<and> queue_event q' = (pre @ post \<noteq> [])"
proof -
  from scan_first_eligible [OF pre el, of post] n obtain l q1 where
    sc: "scan (pre @ j # post) q = (Return (Some j), q1)"
    and f: "job_locks q1 n = Some l" "lock (heap q1 j) = Some l"
      "semaphore (locks q1 l)
         = (case job_locks q n of None \<Rightarrow> 0 | Some l0 \<Rightarrow> semaphore (locks q l0) - 1)"
      "queue q1 = queue q" "queue_event q1 = queue_event q"
    by blast
  from pre el have "j \<notin> set pre" by auto
  then have rm: "remove1 j (pre @ j # post) = pre @ post" by (simp add: remove1_append)
  show ?thesis
  proof (cases "pre @ post = []")
    case True
    with ev qu sc f rm have
      "JobsQueue_next q = (Return j, q1\<lparr>queue := pre @ post, queue_event := False\<rparr>)"
      by (simp add: JobsQueue_next.simps [of q] Let_def)
    with f True show ?thesis by simp
  next
    case False
    with ev qu sc f rm have
      "JobsQueue_next q = (Return j, q1\<lparr>queue := pre @ post\<rparr>)"
      by (simp add: JobsQueue_next.simps [of q] Let_def)
    with f False ev show ?thesis by simp
  qed
qed

lemma next_raises:
  assumes ev: "queue_event q" and qu: "queue q = pre @ j # post"
    and pre: "\<forall>k \<in> set pre. \<not> eligible q k"
    and n: "get_lock_name (heap q j) = None"
  shows "\<exists>e q'. JobsQueue_next q = (Raise e, q')"
proof -
  from n have el: "eligible q j" by (simp add: eligible_def)
  from scan_first_eligible [OF pre el, of post] n obtain e q1 where
    "scan (pre @ j # post) q = (Raise e, q1)"
    by blast
  with ev qu have "JobsQueue_next q = (Raise e, q1)"
    by (simp add: JobsQueue_next.simps [of q])
  then show ?thesis by blast
qed

lemma next_waits:
  assumes ev: "queue_event q" and no: "\<forall>k \<in> set (queue q). \<not> eligible q k"
  shows "\<exists>q'. JobsQueue_next q = (Block, q') \<and> \<not> queue_event q' \<and> queue q' = queue q"
proof -
  from scan_none_eligible [OF no] obtain q1 where
    sc: "scan (queue q) q = (Return None, q1)" and f: "queue q1 = queue q"
    by blast
  have "JobsQueue_next (q1\<lparr>queue_event := False\<rparr>) = (Block, q1\<lparr>queue_event := False\<rparr>)"
    by (simp add: JobsQueue_next.simps)
  with ev sc have "JobsQueue_next q = (Block, q1\<lparr>queue_event := False\<rparr>)"
    by (simp add: JobsQueue_next.simps [of q])
  with f show ?thesis by simp
qed

end
